theory Spec2Isabelle
  imports Main "HOL-Library.AList" "HOL-Library.Char_ord" "HOL-Library.List_Lexorder"
    "HOL-Library.Word"
begin

section \<open>The local chunk manager of \<^verbatim>\<open>internal/storage/local_chunk_manager.go\<close>\<close>

text \<open>
  The chunk manager is a thin layer over the Go standard library: every method joins the
  virtual path under the configured root with \<^verbatim>\<open>path.Join\<close> and calls into
  \<^verbatim>\<open>os\<close>, \<^verbatim>\<open>io/ioutil\<close> and \<^verbatim>\<open>path/filepath\<close>.  The development
  has three layers:
  \<^item> the lexical path functions of package \<^verbatim>\<open>path\<close> (\<open>Clean\<close>, \<open>Join\<close>, \<open>Dir\<close>)
    and of package \<^verbatim>\<open>strings\<close> (\<open>HasPrefix\<close>, \<open>TrimPrefix\<close>) on byte strings;
  \<^item> a model of the file system the \<^verbatim>\<open>os\<close> calls act on: a tree of directories and
    regular files, with the system calls as functions on that tree;
  \<^item> the methods of \<^verbatim>\<open>LocalChunkManager\<close>, translated line by line, with the file
    system passed in and handed back explicitly.
\<close>

subsection \<open>Package \<^verbatim>\<open>strings\<close>\<close>

definition HasPrefix :: "string \<Rightarrow> string \<Rightarrow> bool" where
  "HasPrefix s pre = (take (length pre) s = pre)"

definition TrimPrefix :: "string \<Rightarrow> string \<Rightarrow> string" where
  "TrimPrefix s pre = (if HasPrefix s pre then drop (length pre) s else s)"

subsection \<open>Package \<^verbatim>\<open>path\<close>\<close>

text \<open>
  \<open>split_slash\<close> cuts a string at every \<^verbatim>\<open>/\<close>; \<open>join_slash\<close> puts the pieces back.
  \<^verbatim>\<open>path.Clean\<close> reads its argument one element at a time and keeps the output in a
  buffer it can cut back to the previous slash; here the buffer is the list \<open>out\<close> of
  the elements written so far, the last one first.
\<close>

fun split_slash :: "string \<Rightarrow> string list" where
  "split_slash [] = [[]]"
| "split_slash (c # cs) =
     (if c = CHR ''/'' then [] # split_slash cs
      else (case split_slash cs of [] \<Rightarrow> [[c]] | s # ss \<Rightarrow> (c # s) # ss))"

fun join_slash :: "string list \<Rightarrow> string" where
  "join_slash [] = []"
| "join_slash [s] = s"
| "join_slash (s # t # ss) = s @ CHR ''/'' # join_slash (t # ss)"

definition clean_elem :: "bool \<Rightarrow> string list \<Rightarrow> string \<Rightarrow> string list" where
  "clean_elem rooted out e =
     (if e = [] \<or> e = ''.'' then out
      else if e = ''..'' then
        (case out of
           [] \<Rightarrow> if rooted then [] else [''..'']
         | t # ts \<Rightarrow> if t = ''..'' then (if rooted then out else ''..'' # out) else ts)
      else e # out)"

definition Clean :: "string \<Rightarrow> string" where
  "Clean p =
     (if p = [] then ''.''
      else
        let rooted = (hd p = CHR ''/'');
            out = rev (foldl (clean_elem rooted) [] (split_slash p));
            s = (if rooted then ''/'' else []) @ join_slash out
        in if s = [] then ''.'' else s)"

text \<open>\<^verbatim>\<open>path.Join\<close> of two elements: empty elements are ignored, the rest is cleaned.\<close>

definition Join :: "string \<Rightarrow> string \<Rightarrow> string" where
  "Join a b =
     (if a = [] \<and> b = [] then []
      else if a = [] then Clean b
      else Clean (a @ CHR ''/'' # b))"

text \<open>\<^verbatim>\<open>path.Dir\<close> (and \<^verbatim>\<open>filepath.Dir\<close> on Unix): all up to the last slash, cleaned.\<close>

definition Dir_of :: "string \<Rightarrow> string" where
  "Dir_of p = Clean (rev (dropWhile (\<lambda>c. c \<noteq> CHR ''/'') (rev p)))"

subsection \<open>The file system\<close>

text \<open>
  The standard library is not part of the repository; what follows is the model of it
  the verification rests on.
  \<^item> The file system is one tree.  A node is a regular file (content and modification
    time), a directory (its entries, in no particular order, and its modification time),
    or an entry that cannot be examined: \<open>Denied\<close> stands for a name a directory lists
    while every system call on it fails with \<^verbatim>\<open>EACCES\<close>, as the entries of a directory
    the process may read but not search do.
  \<^item> There are no symbolic links (so \<^verbatim>\<open>Lstat\<close> is \<^verbatim>\<open>Stat\<close>), no other permissions,
    and the working directory of the process is the root of the tree, so that a relative
    path and the same path with a leading slash name the same node.
  \<^item> The clock is a field of the state.  No call advances it; a call that creates,
    overwrites or unlinks stamps the nodes it changes with it.
  \<^item> A \<^verbatim>\<open>[]byte\<close> is a list of bytes; the nil slice and the empty slice are both \<open>[]\<close>.
\<close>

type_synonym byte = "8 word"
type_synonym time = nat

datatype errno = ENOENT | ENOTDIR | EISDIR | EINVAL | EACCES | EBUSY

datatype node =
    File "byte list" time
  | Dir "(string \<times> node) list" time
  | Denied

record fs =
  tree :: node
  clock :: time

record FileInfo =
  IsDir :: bool
  ModTime :: time
  Size :: nat

text \<open>
  Every \<^verbatim>\<open>os\<close> call of the chunk manager receives a cleaned path.  In a cleaned path
  \<^verbatim>\<open>.\<close> occurs only as the whole path and \<^verbatim>\<open>..\<close> only in front of a relative path,
  where, from the root, it names the root again; \<open>segs\<close> therefore keeps the proper
  names of the path.
\<close>

definition segs :: "string \<Rightarrow> string list" where
  "segs p = filter (\<lambda>s. s \<noteq> [] \<and> s \<noteq> ''.'' \<and> s \<noteq> ''..'') (split_slash p)"

fun lookup :: "node \<Rightarrow> string list \<Rightarrow> errno + node" where
  "lookup Denied ss = Inl EACCES"
| "lookup (File c t) [] = Inr (File c t)"
| "lookup (Dir es t) [] = Inr (Dir es t)"
| "lookup (File c t) (s # ss) = Inl ENOTDIR"
| "lookup (Dir es t) (s # ss) =
     (case map_of es s of None \<Rightarrow> Inl ENOENT | Some c \<Rightarrow> lookup c ss)"

fun info_of :: "node \<Rightarrow> errno + FileInfo" where
  "info_of (File c t) = Inr \<lparr>IsDir = False, ModTime = t, Size = length c\<rparr>"
| "info_of (Dir es t) = Inr \<lparr>IsDir = True, ModTime = t, Size = 0\<rparr>"
| "info_of Denied = Inl EACCES"

text \<open>\<^verbatim>\<open>os.Stat\<close>; the empty path names nothing.\<close>

definition os_Stat :: "fs \<Rightarrow> string \<Rightarrow> errno + FileInfo" where
  "os_Stat st p =
     (if p = [] then Inl ENOENT
      else case lookup (tree st) (segs p) of Inl e \<Rightarrow> Inl e | Inr n \<Rightarrow> info_of n)"

text \<open>
  \<^verbatim>\<open>os.MkdirAll\<close>: an existing directory is left alone, a regular file in the way is
  \<^verbatim>\<open>ENOTDIR\<close>, and the missing directories are made from the top down.
\<close>

fun fresh_dirs :: "time \<Rightarrow> string list \<Rightarrow> node" where
  "fresh_dirs now [] = Dir [] now"
| "fresh_dirs now (s # ss) = Dir [(s, fresh_dirs now ss)] now"

fun mkdir_all :: "time \<Rightarrow> node \<Rightarrow> string list \<Rightarrow> errno + node" where
  "mkdir_all now Denied ss = Inl EACCES"
| "mkdir_all now (File c t) ss = Inl ENOTDIR"
| "mkdir_all now (Dir es t) [] = Inr (Dir es t)"
| "mkdir_all now (Dir es t) (s # ss) =
     (case map_of es s of
        None \<Rightarrow> Inr (Dir (AList.update s (fresh_dirs now ss) es) now)
      | Some c \<Rightarrow>
          (case mkdir_all now c ss of
             Inl e \<Rightarrow> Inl e
           | Inr c' \<Rightarrow> Inr (Dir (AList.update s c' es) t)))"

definition os_MkdirAll :: "fs \<Rightarrow> string \<Rightarrow> errno option \<times> fs" where
  "os_MkdirAll st p =
     (if p = [] then (Some ENOENT, st)
      else case mkdir_all (clock st) (tree st) (segs p) of
             Inl e \<Rightarrow> (Some e, st)
           | Inr n \<Rightarrow> (None, st\<lparr>tree := n\<rparr>))"

text \<open>
  \<^verbatim>\<open>ioutil.WriteFile\<close> opens with \<^verbatim>\<open>O_WRONLY|O_CREATE|O_TRUNC\<close> and writes the whole
  content: the directory of the file must be there, a directory cannot be written, an
  existing file is replaced and a missing one created.
\<close>

fun write_at :: "time \<Rightarrow> byte list \<Rightarrow> node \<Rightarrow> string list \<Rightarrow> errno + node" where
  "write_at now d Denied ss = Inl EACCES"
| "write_at now d (File c t) [] = Inr (File d now)"
| "write_at now d (Dir es t) [] = Inl EISDIR"
| "write_at now d (File c t) (s # ss) = Inl ENOTDIR"
| "write_at now d (Dir es t) (s # ss) =
     (case map_of es s of
        None \<Rightarrow>
          if ss = [] then Inr (Dir (AList.update s (File d now) es) now) else Inl ENOENT
      | Some c \<Rightarrow>
          (case write_at now d c ss of
             Inl e \<Rightarrow> Inl e
           | Inr c' \<Rightarrow> Inr (Dir (AList.update s c' es) t)))"

definition ioutil_WriteFile :: "fs \<Rightarrow> string \<Rightarrow> byte list \<Rightarrow> errno option \<times> fs" where
  "ioutil_WriteFile st p d =
     (if p = [] then (Some ENOENT, st)
      else case write_at (clock st) d (tree st) (segs p) of
             Inl e \<Rightarrow> (Some e, st)
           | Inr n \<Rightarrow> (None, st\<lparr>tree := n\<rparr>))"

text \<open>
  \<^verbatim>\<open>ioutil.ReadFile\<close>: the content of a regular file.  A directory can be opened but not
  read: the call returns the empty slice together with \<^verbatim>\<open>EISDIR\<close>.
\<close>

definition ioutil_ReadFile :: "fs \<Rightarrow> string \<Rightarrow> byte list \<times> errno option" where
  "ioutil_ReadFile st p =
     (if p = [] then ([], Some ENOENT)
      else case lookup (tree st) (segs p) of
             Inl e \<Rightarrow> ([], Some e)
           | Inr (File c t) \<Rightarrow> (c, None)
           | Inr (Dir es t) \<Rightarrow> ([], Some EISDIR)
           | Inr Denied \<Rightarrow> ([], Some EACCES))"

text \<open>
  Modelled from the spec: \<^verbatim>\<open>errorutil.ErrorList\<close> is declared in another package of the
  repository; the specification gives its contract as an ordered collection of the
  errors of the items, which stands for a failure when it is not empty.  \<open>ErrorList\<close> is
  that collection.  The other errors are the ones this file makes or passes on:
  \<open>PathError\<close> is an \<^verbatim>\<open>*os.PathError\<close> around an error number, \<open>EOF\<close> is \<^verbatim>\<open>io.EOF\<close>,
  and \<open>FileNotExist\<close> is the error \<open>Read\<close> formats for a missing file.
\<close>

datatype error =
    PathError errno
  | EOF
  | FileNotExist string
  | ErrorList "error list"



text \<open>
  \<^verbatim>\<open>os.RemoveAll\<close> removes what it can and reports the first failure.  \<open>purge\<close> is what
  is left of a node: nothing of a file, nothing of a directory whose entries all go, and
  a \<open>Denied\<close> entry stays, together with the directories above it.  The empty path is
  accepted silently, a path ending in a dot is \<^verbatim>\<open>EINVAL\<close>, a missing path is no error,
  and the root itself cannot be unlinked, though its entries are removed.
\<close>

fun purge :: "time \<Rightarrow> node \<Rightarrow> node option"
  and purge_entries :: "time \<Rightarrow> (string \<times> node) list \<Rightarrow> (string \<times> node) list" where
  "purge now (File c t) = None"
| "purge now Denied = Some Denied"
| "purge now (Dir es t) =
     (let es' = purge_entries now es
      in if es' = [] then None
         else Some (Dir es' (if length es' < length es then now else t)))"
| "purge_entries now [] = []"
| "purge_entries now ((s, c) # es) =
     (case purge now c of
        None \<Rightarrow> purge_entries now es
      | Some c' \<Rightarrow> (s, c') # purge_entries now es)"

fun remove_at :: "time \<Rightarrow> node \<Rightarrow> string list \<Rightarrow> errno option \<times> node" where
  "remove_at now Denied ss = (Some EACCES, Denied)"
| "remove_at now (File c t) ss = (Some ENOTDIR, File c t)"
| "remove_at now (Dir es t) [] =
     (let es' = purge_entries now es
      in (Some EBUSY, Dir es' (if length es' < length es then now else t)))"
| "remove_at now (Dir es t) [s] =
     (case map_of es s of
        None \<Rightarrow> (None, Dir es t)
      | Some c \<Rightarrow>
          (case purge now c of
             None \<Rightarrow> (None, Dir (AList.delete s es) now)
           | Some c' \<Rightarrow> (Some EACCES, Dir (AList.update s c' es) t)))"
| "remove_at now (Dir es t) (s # ss) =
     (case map_of es s of
        None \<Rightarrow> (None, Dir es t)
      | Some c \<Rightarrow>
          (case remove_at now c ss of
             (e, c') \<Rightarrow> (e, Dir (AList.update s c' es) t)))"

definition endsWithDot :: "string \<Rightarrow> bool" where
  "endsWithDot p =
     (p = ''.'' \<or> (length p \<ge> 2 \<and> last p = CHR ''.'' \<and> last (butlast p) = CHR ''/''))"

definition os_RemoveAll :: "fs \<Rightarrow> string \<Rightarrow> errno option \<times> fs" where
  "os_RemoveAll st p =
     (if p = [] then (None, st)
      else if endsWithDot p then (Some EINVAL, st)
      else case remove_at (clock st) (tree st) (segs p) of
             (e, n) \<Rightarrow> (e, st\<lparr>tree := n\<rparr>))"

text \<open>
  \<^verbatim>\<open>filepath.Walk\<close> calls the function it is given once for every entry it meets, in
  lexical order: for the root, then below a directory for each of its names, sorted.
  An entry whose \<^verbatim>\<open>Lstat\<close> fails is reported with no \<^verbatim>\<open>FileInfo\<close> and the error.  A
  \<open>visit\<close> is one such call: the path, the \<^verbatim>\<open>FileInfo\<close> or nil, the error or nil.
\<close>

type_synonym visit = "string \<times> FileInfo option \<times> error option"

fun walk :: "string \<Rightarrow> node \<Rightarrow> visit list" where
  "walk p (File c t) = [(p, Some \<lparr>IsDir = False, ModTime = t, Size = length c\<rparr>, None)]"
| "walk p Denied = [(p, None, Some (PathError EACCES))]"
| "walk p (Dir es t) =
     (p, Some \<lparr>IsDir = True, ModTime = t, Size = 0\<rparr>, None)
       # concat (map (\<lambda>(name, c). walk (Join p name) c) (sort_key fst es))"

definition walk_visits :: "fs \<Rightarrow> string \<Rightarrow> visit list" where
  "walk_visits st root =
     (if root = [] then [(root, None, Some (PathError ENOENT))]
      else case lookup (tree st) (segs root) of
             Inl e \<Rightarrow> [(root, None, Some (PathError e))]
           | Inr n \<Rightarrow> walk root n)"

text \<open>
  A Go call either returns or panics.  \<open>filepath_Walk\<close> runs the function over the visits,
  threading the variables it captures, and stops at the first error it returns (the
  function of the chunk manager never returns \<^verbatim>\<open>SkipDir\<close>) or at a panic.
\<close>

datatype 'a outcome = Returns 'a | Panics

fun run_visits ::
  "(visit \<Rightarrow> 's \<Rightarrow> (error option \<times> 's) outcome) \<Rightarrow> visit list \<Rightarrow> 's \<Rightarrow>
     (error option \<times> 's) outcome" where
  "run_visits fn [] acc = Returns (None, acc)"
| "run_visits fn (v # vs) acc =
     (case fn v acc of
        Panics \<Rightarrow> Panics
      | Returns (Some err, acc') \<Rightarrow> Returns (Some err, acc')
      | Returns (None, acc') \<Rightarrow> run_visits fn vs acc')"

definition filepath_Walk ::
  "fs \<Rightarrow> string \<Rightarrow> (visit \<Rightarrow> 's \<Rightarrow> (error option \<times> 's) outcome) \<Rightarrow> 's \<Rightarrow>
     (error option \<times> 's) outcome" where
  "filepath_Walk st root fn acc = run_visits fn (walk_visits st root) acc"

subsection \<open>The chunk manager\<close>

text \<open>
  A method that changes the file system takes the state and returns its result paired
  with the new state; a method that only reads returns its result.  A Go result
  \<^verbatim>\<open>(T, error)\<close> is a pair whose second component is \<open>None\<close> for the nil error.  The
  context argument is never used by the code and is left out.
\<close>

record LocalChunkManager =
  localPath :: string

definition os_IsNotExist :: "error \<Rightarrow> bool" where
  "os_IsNotExist err = (err = PathError ENOENT)"

definition Exist :: "LocalChunkManager \<Rightarrow> fs \<Rightarrow> string \<Rightarrow> bool \<times> error option" where
  "Exist cm st filePath =
     (let absPath = Join (localPath cm) filePath
      in case os_Stat st absPath of
           Inl e \<Rightarrow>
             if os_IsNotExist (PathError e) then (False, None)
             else (False, Some (PathError e))
         | Inr fi \<Rightarrow> (True, None))"

definition Write ::
  "LocalChunkManager \<Rightarrow> fs \<Rightarrow> string \<Rightarrow> byte list \<Rightarrow> error option \<times> fs" where
  "Write cm st filePath content =
     (let absPath = Join (localPath cm) filePath;
          dir = Dir_of absPath
      in case Exist cm st dir of
           (exist, Some err) \<Rightarrow> (Some err, st)
         | (exist, None) \<Rightarrow>
             if \<not> exist then
               (case os_MkdirAll st dir of
                  (Some e, st') \<Rightarrow> (Some (PathError e), st')
                | (None, st') \<Rightarrow>
                    (case ioutil_WriteFile st' absPath content of
                       (e, st'') \<Rightarrow> (map_option PathError e, st'')))
             else
               (case ioutil_WriteFile st absPath content of
                  (e, st'') \<Rightarrow> (map_option PathError e, st'')))"

text \<open>
  \<open>MultiWrite\<close> ranges over a Go map: \<open>contents\<close> lists its entries in the order the
  runtime happens to visit them.
\<close>

fun MultiWrite_loop ::
  "LocalChunkManager \<Rightarrow> (string \<times> byte list) list \<Rightarrow> error list \<Rightarrow> fs \<Rightarrow> error list \<times> fs"
  where
  "MultiWrite_loop cm [] el st = (el, st)"
| "MultiWrite_loop cm ((filePath, content) # rest) el st =
     (case Write cm st filePath content of
        (Some err, st') \<Rightarrow> MultiWrite_loop cm rest (el @ [err]) st'
      | (None, st') \<Rightarrow> MultiWrite_loop cm rest el st')"

definition MultiWrite ::
  "LocalChunkManager \<Rightarrow> fs \<Rightarrow> (string \<times> byte list) list \<Rightarrow> error option \<times> fs" where
  "MultiWrite cm st contents =
     (case MultiWrite_loop cm contents [] st of
        (el, st') \<Rightarrow> (if length el = 0 then None else Some (ErrorList el), st'))"

definition Read :: "LocalChunkManager \<Rightarrow> fs \<Rightarrow> string \<Rightarrow> byte list \<times> error option" where
  "Read cm st filePath =
     (case Exist cm st filePath of
        (exist, Some err) \<Rightarrow> ([], Some err)
      | (exist, None) \<Rightarrow>
          if \<not> exist then ([], Some (FileNotExist filePath))
          else
            (let absPath = Join (localPath cm) filePath
             in case ioutil_ReadFile st absPath of
                  (content, e) \<Rightarrow> (content, map_option PathError e)))"

text \<open>
  \<open>results\<close> starts as \<open>len(filePaths)\<close> nil slices; slot \<open>i\<close> is assigned whatever the
  read of path \<open>i\<close> returned, error or not.
\<close>

fun MultiRead_loop ::
  "LocalChunkManager \<Rightarrow> fs \<Rightarrow> string list \<Rightarrow> nat \<Rightarrow> byte list list \<Rightarrow> error list \<Rightarrow>
     byte list list \<times> error list" where
  "MultiRead_loop cm st [] i results el = (results, el)"
| "MultiRead_loop cm st (filePath # rest) i results el =
     (case Read cm st filePath of
        (content, Some err) \<Rightarrow>
          MultiRead_loop cm st rest (i + 1) (results[i := content]) (el @ [err])
      | (content, None) \<Rightarrow>
          MultiRead_loop cm st rest (i + 1) (results[i := content]) el)"

definition MultiRead ::
  "LocalChunkManager \<Rightarrow> fs \<Rightarrow> string list \<Rightarrow> byte list list \<times> error option" where
  "MultiRead cm st filePaths =
     (case MultiRead_loop cm st filePaths 0 (replicate (length filePaths) []) [] of
        (results, el) \<Rightarrow>
          if length el = 0 then (results, None) else (results, Some (ErrorList el)))"

definition getModTime :: "LocalChunkManager \<Rightarrow> fs \<Rightarrow> string \<Rightarrow> time \<times> error option" where
  "getModTime cm st filepath =
     (let absPath = Join (localPath cm) filepath
      in case os_Stat st absPath of
           Inl e \<Rightarrow> (0, Some (PathError e))
         | Inr fi \<Rightarrow> (ModTime fi, None))"

text \<open>
  The function handed to \<^verbatim>\<open>filepath.Walk\<close> captures \<open>filePaths\<close>.  It never looks at the
  error it is given, and asks \<open>f.IsDir()\<close> of whatever \<^verbatim>\<open>FileInfo\<close> comes with a path
  that has the prefix: on the nil interface that call is a nil dereference.
\<close>

definition walkFn ::
  "LocalChunkManager \<Rightarrow> string \<Rightarrow> visit \<Rightarrow> string list \<Rightarrow> (error option \<times> string list) outcome"
  where
  "walkFn cm absPrefix v filePaths =
     (case v of (filePath, f, err) \<Rightarrow>
        if HasPrefix filePath absPrefix then
          (case f of
             None \<Rightarrow> Panics
           | Some fi \<Rightarrow>
               if \<not> IsDir fi
               then Returns (None, filePaths @ [TrimPrefix filePath (localPath cm)])
               else Returns (None, filePaths))
        else Returns (None, filePaths))"

text \<open>The loop over \<open>filePaths\<close> that both branches of \<open>ListWithPrefix\<close> end with.\<close>

fun modTimes_loop ::
  "LocalChunkManager \<Rightarrow> fs \<Rightarrow> string list \<Rightarrow> string list \<Rightarrow> time list \<Rightarrow>
     string list \<times> time list \<times> error option" where
  "modTimes_loop cm st filePaths [] modTimes = (filePaths, modTimes, None)"
| "modTimes_loop cm st filePaths (filePath # rest) modTimes =
     (case getModTime cm st filePath of
        (modTime, Some err2) \<Rightarrow> (filePaths, [], Some err2)
      | (modTime, None) \<Rightarrow> modTimes_loop cm st filePaths rest (modTimes @ [modTime]))"

text \<open>
  \<^verbatim>\<open>filepath.Glob\<close> is taken as a parameter \<open>glob\<close>: given the state and the pattern it
  returns the matching paths or \<^verbatim>\<open>ErrBadPattern\<close>.  No property below depends on which
  paths it matches.
\<close>

type_synonym globber = "fs \<Rightarrow> string \<Rightarrow> error + string list"

definition ListWithPrefix ::
  "globber \<Rightarrow> LocalChunkManager \<Rightarrow> fs \<Rightarrow> string \<Rightarrow> bool \<Rightarrow>
     (string list \<times> time list \<times> error option) outcome" where
  "ListWithPrefix glob cm st pre recursive =
     (if recursive then
        (let absPrefix = Join (localPath cm) pre;
             dir = Dir_of absPrefix
         in case filepath_Walk st dir (walkFn cm absPrefix) [] of
              Panics \<Rightarrow> Panics
            | Returns (Some err, filePaths) \<Rightarrow> Returns ([], [], Some err)
            | Returns (None, filePaths) \<Rightarrow>
                Returns (modTimes_loop cm st filePaths filePaths []))
      else
        (let absPrefix = Join (localPath cm) (pre @ ''*'')
         in case glob st absPrefix of
              Inl err \<Rightarrow> Returns ([], [], Some err)
            | Inr absPaths \<Rightarrow>
                (let filePaths = map (\<lambda>absPath. TrimPrefix absPath (localPath cm)) absPaths
                 in Returns (modTimes_loop cm st filePaths filePaths []))))"


definition Remove :: "LocalChunkManager \<Rightarrow> fs \<Rightarrow> string \<Rightarrow> error option \<times> fs" where
  "Remove cm st filePath =
     (case Exist cm st filePath of
        (exist, Some err) \<Rightarrow> (Some err, st)
      | (exist, None) \<Rightarrow>
          if exist then
            (let absPath = Join (localPath cm) filePath
             in case os_RemoveAll st absPath of
                  (Some e, st') \<Rightarrow> (Some (PathError e), st')
                | (None, st') \<Rightarrow> (None, st'))
          else (None, st))"

fun MultiRemove_loop ::
  "LocalChunkManager \<Rightarrow> string list \<Rightarrow> error list \<Rightarrow> fs \<Rightarrow> error list \<times> fs" where
  "MultiRemove_loop cm [] el st = (el, st)"
| "MultiRemove_loop cm (filePath # rest) el st =
     (case Remove cm st filePath of
        (Some err, st') \<Rightarrow> MultiRemove_loop cm rest (el @ [err]) st'
      | (None, st') \<Rightarrow> MultiRemove_loop cm rest el st')"

definition MultiRemove ::
  "LocalChunkManager \<Rightarrow> fs \<Rightarrow> string list \<Rightarrow> error option \<times> fs" where
  "MultiRemove cm st filePaths =
     (case MultiRemove_loop cm filePaths [] st of
        (el, st') \<Rightarrow> (if length el = 0 then None else Some (ErrorList el), st'))"

definition RemoveWithPrefix ::
  "globber \<Rightarrow> LocalChunkManager \<Rightarrow> fs \<Rightarrow> string \<Rightarrow> (error option \<times> fs) outcome" where
  "RemoveWithPrefix glob cm st pre =
     (case ListWithPrefix glob cm st pre True of
        Panics \<Rightarrow> Panics
      | Returns (filePaths, modTimes, Some err) \<Rightarrow> Returns (Some err, st)
      | Returns (filePaths, modTimes, None) \<Rightarrow> Returns (MultiRemove cm st filePaths))"

subsection \<open>What the specification says, in its own words\<close>

text \<open>
  The specification describes a batch operation as: perform the single operation on
  every item in turn, whatever the earlier ones returned, and put the errors met into
  one aggregate, which is nil when there are none.  \<open>each\<close> is that iteration, with the
  state handed from one item to the next; \<open>failures\<close> keeps the errors of the item
  results, in order; \<open>aggregate\<close> is the error handed back.
\<close>

fun each :: "('s \<Rightarrow> 'a \<Rightarrow> error option \<times> 's) \<Rightarrow> 's \<Rightarrow> 'a list \<Rightarrow> error option list \<times> 's" where
  "each op st [] = ([], st)"
| "each op st (x # xs) =
     (case op st x of (r, st') \<Rightarrow> (case each op st' xs of (rs, st'') \<Rightarrow> (r # rs, st'')))"

definition failures :: "error option list \<Rightarrow> error list" where
  "failures rs = concat (map (\<lambda>r. case r of None \<Rightarrow> [] | Some e \<Rightarrow> [e]) rs)"

definition aggregate :: "error option list \<Rightarrow> error option" where
  "aggregate rs = (if failures rs = [] then None else Some (ErrorList (failures rs)))"

text \<open>A read of \<open>p\<close> fails; the second stat of a listed path succeeds.\<close>

definition failed :: "LocalChunkManager \<Rightarrow> fs \<Rightarrow> string \<Rightarrow> bool" where
  "failed cm st p = (snd (Read cm st p) \<noteq> None)"

definition stat_ok :: "LocalChunkManager \<Rightarrow> fs \<Rightarrow> string \<Rightarrow> bool" where
  "stat_ok cm st p = (snd (getModTime cm st p) = None)"

subsection \<open>Concrete states\<close>

text \<open>
  A chunk manager rooted at \<^verbatim>\<open>/data/\<close>, and the tree of the specification's listing
  example below it: \<^verbatim>\<open>a/b/x.txt\<close>, \<^verbatim>\<open>a/b/c/y.txt\<close> and \<^verbatim>\<open>a/bc/z.txt\<close>.  Two stand-ins
  for \<^verbatim>\<open>filepath.Glob\<close>: one that matches nothing, one that returns two paths, the
  second of which is not in the tree.
\<close>

definition cm0 :: LocalChunkManager where
  "cm0 = \<lparr>localPath = ''/data/''\<rparr>"

definition st0 :: fs where
  "st0 =
     \<lparr>tree =
        Dir [(''data'',
              Dir [(''a'',
                    Dir [(''bc'', Dir [(''z.txt'', File [9] 13)] 10),
                         (''b'',
                          Dir [(''x.txt'', File [1, 2, 3] 11),
                               (''c'', Dir [(''y.txt'', File [7] 12)] 10)] 10)] 10)] 10)] 10,
      clock = 20\<rparr>"

definition no_glob :: globber where
  "no_glob st pattern = Inr []"


text \<open>
  A root directory \<^verbatim>\<open>/data\<close> with nothing in it; and a tree in which the directory
  \<^verbatim>\<open>/data/a/b\<close> lists an entry \<^verbatim>\<open>x.txt\<close> that cannot be examined.
\<close>

definition st_empty :: fs where
  "st_empty = \<lparr>tree = Dir [(''data'', Dir [] 0)] 0, clock = 1\<rparr>"

definition st_denied :: fs where
  "st_denied =
     \<lparr>tree = Dir [(''data'', Dir [(''a'', Dir [(''b'', Dir [(''x.txt'', Denied)] 10)] 10)] 10)] 10,
      clock = 20\<rparr>"

text \<open>
  The state the chunk manager rooted at \<^verbatim>\<open>/data/\<close> reaches from \<open>st_empty\<close> by writing
  the virtual path \<^verbatim>\<open>data/q/x\<close>: there is a directory \<^verbatim>\<open>/data/data/q\<close>, and no
  \<^verbatim>\<open>/data/q\<close>.
\<close>

definition st_nested :: fs where
  "st_nested =
     \<lparr>tree =
        Dir [(''data'',
              Dir [(''data'', Dir [(''q'', Dir [(''x'', File [1, 2] 1)] 1)] 1)] 1)] 0,
      clock = 1\<rparr>"

subsection \<open>Trees, positions and what the walk matches\<close>

text \<open>
  A \<open>plain\<close> name is one a directory entry can have.  In a well-formed tree the names of
  a directory are plain and distinct.  \<open>node_at\<close> follows names down from a node;
  \<open>entry_visit\<close> is the call of the walk function for a node at a path.  A visit
  \<open>matches\<close> a prefix when its path has it and its \<^verbatim>\<open>FileInfo\<close> is not a directory's;
  it is a \<open>nil_hit\<close> when its path has the prefix and its \<^verbatim>\<open>FileInfo\<close> is nil.
  \<open>matched\<close> are the paths the recursive listing collects, before the root is trimmed.
\<close>

definition plain :: "string \<Rightarrow> bool" where
  "plain s = (s \<noteq> [] \<and> s \<noteq> ''.'' \<and> s \<noteq> ''..'' \<and> CHR ''/'' \<notin> set s)"

fun wf_node :: "node \<Rightarrow> bool" where
  "wf_node (File c t) = True"
| "wf_node Denied = True"
| "wf_node (Dir es t) =
     (distinct (map fst es) \<and> list_all (\<lambda>(name, c). plain name \<and> wf_node c) es)"

fun node_at :: "node \<Rightarrow> string list \<Rightarrow> node option" where
  "node_at n [] = Some n"
| "node_at (Dir es t) (s # ss) = (case map_of es s of None \<Rightarrow> None | Some c \<Rightarrow> node_at c ss)"
| "node_at n (s # ss) = None"

fun entry_visit :: "string \<Rightarrow> node \<Rightarrow> visit" where
  "entry_visit p (File c t) = (p, Some \<lparr>IsDir = False, ModTime = t, Size = length c\<rparr>, None)"
| "entry_visit p (Dir es t) = (p, Some \<lparr>IsDir = True, ModTime = t, Size = 0\<rparr>, None)"
| "entry_visit p Denied = (p, None, Some (PathError EACCES))"

definition matches :: "string \<Rightarrow> visit \<Rightarrow> bool" where
  "matches absPrefix v =
     (case v of (w, f, e) \<Rightarrow>
        HasPrefix w absPrefix \<and> (case f of None \<Rightarrow> False | Some fi \<Rightarrow> \<not> IsDir fi))"

definition nil_hit :: "string \<Rightarrow> visit \<Rightarrow> bool" where
  "nil_hit absPrefix v = (case v of (w, f, e) \<Rightarrow> HasPrefix w absPrefix \<and> f = None)"

definition matched :: "LocalChunkManager \<Rightarrow> fs \<Rightarrow> string \<Rightarrow> string list" where
  "matched cm st pre =
     (let absPrefix = Join (localPath cm) pre
      in map fst (filter (matches absPrefix) (walk_visits st (Dir_of absPrefix))))"

subsection \<open>Notions used in the proofs\<close>

text \<open>
  \<^verbatim>\<open>path.Clean\<close> writes a path as its kept elements joined by slashes: \<open>render\<close> is that
  last step, \<open>elem_ok\<close> an element that can be kept, and \<open>stack_ok\<close> the shape of the
  buffer: proper elements, below them only the \<^verbatim>\<open>..\<close> a relative path starts with.
  \<open>weight\<close> counts the bytes of a list of elements, a separator for each.
\<close>

definition elem_ok :: "string \<Rightarrow> bool" where
  "elem_ok e = (e \<noteq> [] \<and> e \<noteq> ''.'' \<and> CHR ''/'' \<notin> set e)"

definition render :: "bool \<Rightarrow> string list \<Rightarrow> string" where
  "render rooted out =
     (let s = (if rooted then ''/'' else []) @ join_slash out in if s = [] then ''.'' else s)"

definition stack_ok :: "bool \<Rightarrow> string list \<Rightarrow> bool" where
  "stack_ok r S =
     ((\<forall>e\<in>set S. elem_ok e) \<and>
      (\<exists>reals k. S = reals @ replicate k ''..'' \<and> ''..'' \<notin> set reals \<and> (r \<longrightarrow> k = 0)))"

definition weight :: "string list \<Rightarrow> nat" where
  "weight ws = sum_list (map (\<lambda>e. Suc (length e)) ws)"

text \<open>
  The kind of the node at a position is all the walk function looks at.  A state is
  well-formed when its tree is a well-formed directory.  A walked path \<open>w\<close> resolves
  back when the path the listing returns for it, joined under the root again, names the
  place \<open>w\<close> names.
\<close>

datatype kind = KFile | KDir | KDenied

fun kind_of :: "node \<Rightarrow> kind" where
  "kind_of (File c t) = KFile"
| "kind_of (Dir es t) = KDir"
| "kind_of Denied = KDenied"

definition kind_at :: "node \<Rightarrow> string list \<Rightarrow> kind option" where
  "kind_at n ss = map_option kind_of (node_at n ss)"

definition wf_fs :: "fs \<Rightarrow> bool" where
  "wf_fs st = (case tree st of Dir es t \<Rightarrow> wf_node (tree st) | _ \<Rightarrow> False)"

definition resolve_back :: "LocalChunkManager \<Rightarrow> string \<Rightarrow> bool" where
  "resolve_back cm w = (segs (Join (localPath cm) (TrimPrefix w (localPath cm))) = segs w)"

text \<open>
  A file \<^verbatim>\<open>/data2\<close> beside the root \<^verbatim>\<open>/data/\<close>, with \<^verbatim>\<open>/data/data2\<close> and \<^verbatim>\<open>/data/x\<close>
  below the root; the same tree once the two files below the root are gone; and the
  example tree \<open>st0\<close> once its three files are gone.
\<close>

definition st_sibling :: fs where
  "st_sibling =
     \<lparr>tree = Dir [(''data'', Dir [(''data2'', File [1] 1), (''x'', File [2] 1)] 1),
                  (''data2'', File [3] 1)] 1,
      clock = 5\<rparr>"

definition st_sibling_left :: fs where
  "st_sibling_left =
     \<lparr>tree = Dir [(''data'', Dir [] 5), (''data2'', File [3] 1)] 1, clock = 5\<rparr>"

definition st0_emptied :: fs where
  "st0_emptied =
     \<lparr>tree =
        Dir [(''data'',
              Dir [(''a'',
                    Dir [(''bc'', Dir [] 20), (''b'', Dir [(''c'', Dir [] 20)] 20)] 10)] 10)] 10,
      clock = 20\<rparr>"

section \<open>Properties\<close>

subsection \<open>Batch operations\<close>

lemma failures_simps [simp]:
  "failures [] = []"
  "failures (None # rs) = failures rs"
  "failures (Some e # rs) = e # failures rs"
  by (simp_all add: failures_def)

lemma length_each: "length (fst (each op st xs)) = length xs"
proof (induction xs arbitrary: st)
  case Nil
  then show ?case by simp
next
  case (Cons x xs)
  obtain r st' where 1: "op st x = (r, st')" by (cases "op st x")
  obtain rs st'' where 2: "each op st' xs = (rs, st'')" by (cases "each op st' xs")
  from Cons.IH [of st'] 2 have "length rs = length xs" by simp
  with 1 2 show ?case by simp
qed

lemma MultiWrite_loop_each:
  "MultiWrite_loop cm xs el st =
     (el @ failures (fst (each (\<lambda>s (p, c). Write cm s p c) st xs)),
      snd (each (\<lambda>s (p, c). Write cm s p c) st xs))"
  by (induction xs arbitrary: el st) (auto split: prod.splits option.splits)

lemma MultiRemove_loop_each:
  "MultiRemove_loop cm xs el st =
     (el @ failures (fst (each (Remove cm) st xs)), snd (each (Remove cm) st xs))"
  by (induction xs arbitrary: el st) (auto split: prod.splits option.splits)

lemma MultiRead_loop_map:
  "i + length ps = length results \<Longrightarrow>
   MultiRead_loop cm st ps i results el =
     (take i results @ map (\<lambda>p. fst (Read cm st p)) ps,
      el @ failures (map (\<lambda>p. snd (Read cm st p)) ps))"
proof (induction ps arbitrary: i results el)
  case Nil
  then show ?case by simp
next
  case (Cons p ps)
  have len: "Suc i + length ps = length (results[i := c])" for c
    using Cons.prems by simp
  have tk: "take (Suc i) (results[i := c]) = take i results @ [c]" for c
    using Cons.prems by (simp add: take_Suc_conv_app_nth)
  show ?case
    using Cons.IH [OF len] tk
    by (cases "Read cm st p") (auto split: option.splits)
qed

lemma failures_empty_iff: "(failures rs = []) = (\<forall>r\<in>set rs. r = None)"
proof (induction rs)
  case Nil
  then show ?case by simp
next
  case (Cons a rs)
  then show ?case by (cases a) auto
qed

lemma length_failures: "length (failures rs) = length (filter (\<lambda>r. r \<noteq> None) rs)"
proof (induction rs)
  case Nil
  then show ?case by simp
next
  case (Cons a rs)
  then show ?case by (cases a) auto
qed

text \<open>
  C5.  \<open>MultiWrite\<close> and \<open>MultiRemove\<close> perform \<open>Write\<close> and \<open>Remove\<close> on every item of
  the input in turn, each on the state the one before left, whether or not earlier
  items failed (there are as many item results as items), and \<open>MultiRead\<close> reads every
  path; each returns the aggregate of the item results, an \<open>ErrorList\<close> holding all the
  errors met, and the aggregate is non-nil exactly when some item failed.
\<close>

theorem batch_operations_aggregate:
  "MultiWrite cm st contents =
     (aggregate (fst (each (\<lambda>s (p, c). Write cm s p c) st contents)),
      snd (each (\<lambda>s (p, c). Write cm s p c) st contents)) \<and>
   length (fst (each (\<lambda>s (p, c). Write cm s p c) st contents)) = length contents \<and>
   MultiRemove cm st filePaths =
     (aggregate (fst (each (Remove cm) st filePaths)), snd (each (Remove cm) st filePaths)) \<and>
   length (fst (each (Remove cm) st filePaths)) = length filePaths \<and>
   snd (MultiRead cm st filePaths) = aggregate (map (\<lambda>p. snd (Read cm st p)) filePaths) \<and>
   (aggregate rs \<noteq> None) = list_ex (\<lambda>r. r \<noteq> None) rs \<and>
   aggregate rs \<in> {None, Some (ErrorList (failures rs))}"
  by (simp add: MultiWrite_def MultiRemove_def MultiRead_def MultiWrite_loop_each
      MultiRemove_loop_each MultiRead_loop_map aggregate_def length_each failures_empty_iff
      list_ex_iff split: prod.splits)

theorem batch_operations_aggregate_witness:
  "MultiRemove cm0 st0 [''a/b/x.txt/k'', ''nope''] = (Some (ErrorList [PathError ENOTDIR]), st0) \<and>
   snd (MultiRead cm0 st0 [''a/b/x.txt'', ''nope'', ''a/b'']) =
     Some (ErrorList [FileNotExist ''nope'', PathError EISDIR])"
proof -
  have rm: "each (Remove cm0) st0 [''a/b/x.txt/k'', ''nope''] = ([Some (PathError ENOTDIR), None], st0)"
    by code_simp
  have rd: "map (\<lambda>p. snd (Read cm0 st0 p)) [''a/b/x.txt'', ''nope'', ''a/b''] =
      [None, Some (FileNotExist ''nope''), Some (PathError EISDIR)]"
    by code_simp
  show ?thesis
    using batch_operations_aggregate
      [of cm0 st0 "[]" "[''a/b/x.txt/k'', ''nope'']" "[]"]
      batch_operations_aggregate
      [of cm0 st0 "[]" "[''a/b/x.txt'', ''nope'', ''a/b'']" "[]"]
    by (simp only: rm rd) (simp add: aggregate_def)
qed

lemma Read_failed_empty: "snd (Read cm st p) \<noteq> None \<Longrightarrow> fst (Read cm st p) = []"
  by (auto simp: Read_def ioutil_ReadFile_def Let_def
      split: prod.splits option.splits if_splits sum.splits node.splits)

text \<open>
  C2.  \<open>MultiRead\<close> of \<open>n\<close> paths returns \<open>n\<close> slots, slot \<open>i\<close> being what a single \<open>Read\<close>
  of path \<open>i\<close> returns; the slot of a failed read is empty; and when \<open>k\<close> of the reads
  fail the aggregate holds exactly \<open>k\<close> errors (it is nil when \<open>k = 0\<close>).
\<close>

theorem MultiRead_slots:
  "length (fst (MultiRead cm st ps)) = length ps \<and>
   fst (MultiRead cm st ps) = map (\<lambda>p. fst (Read cm st p)) ps \<and>
   list_all (\<lambda>p. failed cm st p \<longrightarrow> fst (Read cm st p) = []) ps \<and>
   snd (MultiRead cm st ps) =
     (if length (filter (failed cm st) ps) = 0 then None
      else Some (ErrorList (failures (map (\<lambda>p. snd (Read cm st p)) ps)))) \<and>
   length (failures (map (\<lambda>p. snd (Read cm st p)) ps)) = length (filter (failed cm st) ps)"
proof -
  have lf: "length (failures (map (\<lambda>p. snd (Read cm st p)) ps)) = length (filter (failed cm st) ps)"
  proof -
    have "(\<lambda>x. snd (Read cm st x) \<noteq> None) = failed cm st"
      by (simp add: failed_def fun_eq_iff)
    then show ?thesis by (simp add: length_failures filter_map comp_def)
  qed
  have "list_all (\<lambda>p. failed cm st p \<longrightarrow> fst (Read cm st p) = []) ps"
    by (simp add: list_all_iff failed_def Read_failed_empty)
  moreover have "MultiRead cm st ps =
      (map (\<lambda>p. fst (Read cm st p)) ps,
       if failures (map (\<lambda>p. snd (Read cm st p)) ps) = [] then None
       else Some (ErrorList (failures (map (\<lambda>p. snd (Read cm st p)) ps))))"
    by (simp add: MultiRead_def MultiRead_loop_map)
  ultimately show ?thesis using lf by (auto simp del: length_0_conv)
qed

theorem MultiRead_slots_witness:
  "filter (failed cm0 st0) [''a/b/x.txt'', ''nope'', ''a/b'', ''a/bc/z.txt''] = [''nope'', ''a/b''] \<and>
   MultiRead cm0 st0 [''a/b/x.txt'', ''nope'', ''a/b'', ''a/bc/z.txt''] =
     ([[1, 2, 3], [], [], [9]], Some (ErrorList [FileNotExist ''nope'', PathError EISDIR]))"
proof -
  let ?ps = "[''a/b/x.txt'', ''nope'', ''a/b'', ''a/bc/z.txt'']"
  have fl: "filter (failed cm0 st0) ?ps = [''nope'', ''a/b'']"
    by code_simp
  have rd: "map (\<lambda>p. Read cm0 st0 p) ?ps =
      [([1, 2, 3], None), ([], Some (FileNotExist ''nope'')), ([], Some (PathError EISDIR)),
       ([9], None)]"
    by code_simp
  from rd have "map (\<lambda>p. fst (Read cm0 st0 p)) ?ps = [[1, 2, 3], [], [], [9]]"
    and "map (\<lambda>p. snd (Read cm0 st0 p)) ?ps =
      [None, Some (FileNotExist ''nope''), Some (PathError EISDIR), None]"
    by simp_all
  with fl MultiRead_slots [of cm0 st0 ?ps] show ?thesis
    by (simp add: prod_eq_iff)
qed

subsection \<open>Listing: the modification times\<close>

lemma modTimes_loop_eq:
  "modTimes_loop cm st all ps acc =
     (if list_all (stat_ok cm st) ps
      then (all, acc @ map (\<lambda>p. fst (getModTime cm st p)) ps, None)
      else (all, [], case find (\<lambda>p. \<not> stat_ok cm st p) ps of
                        None \<Rightarrow> None | Some p \<Rightarrow> snd (getModTime cm st p)))"
proof (induction ps arbitrary: acc)
  case Nil
  then show ?case by simp
next
  case (Cons p ps)
  show ?case
  proof (cases "getModTime cm st p")
    case (Pair t e)
    then show ?thesis using Cons.IH by (cases e) (auto simp: stat_ok_def)
  qed
qed





subsection \<open>Writing, reading and probing\<close>

lemma map_of_update [simp]: "map_of (AList.update k v al) = (map_of al)(k \<mapsto> v)"
  by (rule AList.update_conv')

lemma lookup_not_Denied: "lookup n ss \<noteq> Inr Denied"
  by (induction n ss rule: lookup.induct) (auto split: option.splits)

lemma write_at_lookup:
  "write_at now d n ss = Inr n' \<Longrightarrow> lookup n' ss = Inr (File d now)"
  by (induction now d n ss arbitrary: n' rule: write_at.induct)
     (auto split: option.splits sum.splits if_splits)

lemma write_at_absent:
  "write_at now d n ss = Inr n' \<Longrightarrow> lookup n ss = Inl e \<Longrightarrow> e = ENOENT"
  by (induction now d n ss arbitrary: n' rule: write_at.induct)
     (auto split: option.splits sum.splits if_splits)

lemma mkdir_all_keeps_obstacle:
  "mkdir_all now n ds = Inr n' \<Longrightarrow> lookup n ss = Inl e \<Longrightarrow> e \<noteq> ENOENT \<Longrightarrow>
   lookup n' ss = Inl e"
proof (induction now n ds arbitrary: n' ss rule: mkdir_all.induct)
  case (4 now es t s ds)
  show ?case
  proof (cases ss)
    case Nil
    with 4 show ?thesis by simp
  next
    case (Cons x xs)
    show ?thesis
    proof (cases "map_of es s")
      case None
      with 4 Cons show ?thesis by (auto split: option.splits)
    next
      case (Some c)
      with 4 Cons show ?thesis
        by (auto split: option.splits sum.splits)
    qed
  qed
qed auto

lemma WriteFile_ok:
  assumes "ioutil_WriteFile st p d = (None, st')"
  shows "p \<noteq> [] \<and> lookup (tree st') (segs p) = Inr (File d (clock st))"
  using assms
  by (auto simp: ioutil_WriteFile_def split: if_splits sum.splits dest: write_at_lookup)

lemma WriteFile_absent:
  assumes "ioutil_WriteFile st p d = (None, st')" "lookup (tree st) (segs p) = Inl e"
  shows "e = ENOENT"
  using assms
  by (auto simp: ioutil_WriteFile_def split: if_splits sum.splits dest: write_at_absent)

lemma Write_ok_cases:
  assumes "Write cm st p d = (None, st')"
  shows "\<exists>st1. (st1 = st \<or> os_MkdirAll st (Dir_of (Join (localPath cm) p)) = (None, st1)) \<and>
               ioutil_WriteFile st1 (Join (localPath cm) p) d = (None, st')"
  using assms unfolding Write_def Let_def
  by (auto split: prod.splits option.splits if_splits)

lemma Write_ok_lookup:
  assumes "Write cm st p d = (None, st')"
  shows "Join (localPath cm) p \<noteq> [] \<and>
         (\<exists>t. lookup (tree st') (segs (Join (localPath cm) p)) = Inr (File d t))"
  using Write_ok_cases [OF assms] WriteFile_ok by blast

lemma Write_then_Exist:
  assumes "Write cm st p d = (None, st')"
  shows "Exist cm st' p = (True, None)"
  using Write_ok_lookup [OF assms]
  by (auto simp: Exist_def os_Stat_def)

text \<open>The round trip: what a successful \<open>Write\<close> stored is what \<open>Read\<close> returns.\<close>

lemma Write_then_Read:
  assumes "Write cm st p d = (None, st')"
  shows "Read cm st' p = (d, None)"
  using Write_ok_lookup [OF assms] Write_then_Exist [OF assms]
  by (auto simp: Read_def ioutil_ReadFile_def)

lemma Write_ok_absent:
  assumes "Write cm st p d = (None, st')" "os_Stat st (Join (localPath cm) p) = Inl e"
  shows "e = ENOENT"
proof (rule ccontr)
  assume ne: "e \<noteq> ENOENT"
  let ?abs = "Join (localPath cm) p"
  from Write_ok_lookup [OF assms(1)] have nonempty: "?abs \<noteq> []" by simp
  have ok: "\<And>n. info_of n = Inl e \<Longrightarrow> lookup (tree st) (segs ?abs) = Inr n \<Longrightarrow> False"
  proof -
    fix n assume "info_of n = Inl e" "lookup (tree st) (segs ?abs) = Inr n"
    then show False using lookup_not_Denied [of "tree st" "segs ?abs"] by (cases n) auto
  qed
  from assms(2) nonempty ok have lk: "lookup (tree st) (segs ?abs) = Inl e"
    by (auto simp: os_Stat_def split: sum.splits)
  from Write_ok_cases [OF assms(1)] obtain st1 where
    st1: "st1 = st \<or> os_MkdirAll st (Dir_of ?abs) = (None, st1)"
    and wf: "ioutil_WriteFile st1 ?abs d = (None, st')" by blast
  have "lookup (tree st1) (segs ?abs) = Inl e"
    using st1 lk ne
    by (auto simp: os_MkdirAll_def split: if_splits sum.splits dest: mkdir_all_keeps_obstacle)
  with WriteFile_absent [OF wf] ne show False by blast
qed

text \<open>
  C6.  \<open>Exist\<close> follows the stat of the resolved path: false and no error when the stat
  reports \<^verbatim>\<open>ENOENT\<close>, true and no error when the stat succeeds, false and the error for
  any other stat failure.  After a successful \<open>Write\<close> of \<open>p\<close> it is true with no error;
  and before that write, when nothing was to be found at \<open>p\<close>, it was false with no error.
\<close>

theorem Exist_follows_Stat:
  "(os_Stat st (Join (localPath cm) p) = Inl ENOENT \<longrightarrow> Exist cm st p = (False, None)) \<and>
   (os_Stat st (Join (localPath cm) p) = Inr fi \<longrightarrow> Exist cm st p = (True, None)) \<and>
   (os_Stat st (Join (localPath cm) p) = Inl e \<and> e \<noteq> ENOENT \<longrightarrow>
      Exist cm st p = (False, Some (PathError e))) \<and>
   (Write cm st p d = (None, st') \<longrightarrow> Exist cm st' p = (True, None)) \<and>
   (Write cm st p d = (None, st') \<and> os_Stat st (Join (localPath cm) p) = Inl e \<longrightarrow>
      Exist cm st p = (False, None))"
proof -
  have "Exist cm st p = (False, None)"
    if "Write cm st p d = (None, st')" "os_Stat st (Join (localPath cm) p) = Inl e"
    using Write_ok_absent [OF that] that(2) by (simp add: Exist_def os_IsNotExist_def)
  moreover have "Exist cm st p = (False, None)"
    if "os_Stat st (Join (localPath cm) p) = Inl ENOENT"
    using that by (simp add: Exist_def os_IsNotExist_def)
  moreover have "Exist cm st p = (True, None)"
    if "os_Stat st (Join (localPath cm) p) = Inr fi"
    using that by (simp add: Exist_def)
  moreover have "Exist cm st p = (False, Some (PathError e))"
    if "os_Stat st (Join (localPath cm) p) = Inl e" "e \<noteq> ENOENT"
    using that by (simp add: Exist_def os_IsNotExist_def)
  ultimately show ?thesis
    using Write_then_Exist by blast
qed

theorem Exist_follows_Stat_witness:
  "os_Stat st0 (Join (localPath cm0) ''a/new/f'') = Inl ENOENT \<and>
   fst (Write cm0 st0 ''a/new/f'' [5]) = None \<and>
   Exist cm0 st0 ''a/new/f'' = (False, None) \<and>
   Exist cm0 (snd (Write cm0 st0 ''a/new/f'' [5])) ''a/new/f'' = (True, None) \<and>
   os_Stat st0 (Join (localPath cm0) ''a/b/x.txt/k'') = Inl ENOTDIR \<and>
   Exist cm0 st0 ''a/b/x.txt/k'' = (False, Some (PathError ENOTDIR)) \<and>
   os_Stat st0 (Join (localPath cm0) ''a/b/x.txt'') = Inr \<lparr>IsDir = False, ModTime = 11, Size = 3\<rparr> \<and>
   Exist cm0 st0 ''a/b/x.txt'' = (True, None)"
proof -
  have s1: "os_Stat st0 (Join (localPath cm0) ''a/new/f'') = Inl ENOENT"
    by code_simp
  have w: "fst (Write cm0 st0 ''a/new/f'' [5]) = None"
    by code_simp
  then have w': "Write cm0 st0 ''a/new/f'' [5] = (None, snd (Write cm0 st0 ''a/new/f'' [5]))"
    by (simp add: prod_eq_iff)
  have s2: "os_Stat st0 (Join (localPath cm0) ''a/b/x.txt/k'') = Inl ENOTDIR"
    by code_simp
  have s3: "os_Stat st0 (Join (localPath cm0) ''a/b/x.txt'') =
      Inr \<lparr>IsDir = False, ModTime = 11, Size = 3\<rparr>"
    by code_simp
  show ?thesis
    using s1 w s2 s3
      Exist_follows_Stat [of st0 cm0 "''a/new/f''" undefined ENOENT "[5]"
        "snd (Write cm0 st0 ''a/new/f'' [5])"] w'
      Exist_follows_Stat [of st0 cm0 "''a/b/x.txt/k''" undefined ENOTDIR "[]" st0]
      Exist_follows_Stat [of st0 cm0 "''a/b/x.txt''" "\<lparr>IsDir = False, ModTime = 11, Size = 3\<rparr>"
        ENOENT "[]" st0]
    by simp
qed

subsection \<open>Ranged reads\<close>




subsection \<open>The directory check of \<open>Write\<close>\<close>

text \<open>
  C1.  \<open>Write\<close> asks \<open>Exist\<close> about \<open>dir\<close>, the directory of the path it has already
  joined under the root, and \<open>Exist\<close> joins its argument under the root once more.  With
  the root \<^verbatim>\<open>/data/\<close>, after the virtual path \<^verbatim>\<open>data/q/x\<close> has been written, writing
  \<^verbatim>\<open>q/f\<close> finds \<^verbatim>\<open>/data/data/q\<close> in place of \<^verbatim>\<open>/data/q\<close>, takes the directory to exist,
  does not call \<^verbatim>\<open>MkdirAll\<close>, and fails with \<^verbatim>\<open>ENOENT\<close> on a directory that
  \<^verbatim>\<open>MkdirAll\<close> would have made.  (The round trip itself holds: \<open>Write_then_Read\<close>.)
\<close>

theorem Write_checks_wrong_directory:
  "Write cm0 st_empty ''data/q/x'' [1, 2] = (None, st_nested) \<and>
   Dir_of (Join (localPath cm0) ''q/f'') = ''/data/q'' \<and>
   os_Stat st_nested ''/data/q'' = Inl ENOENT \<and>
   Exist cm0 st_nested ''/data/q'' = (True, None) \<and>
   Write cm0 st_nested ''q/f'' [3] = (Some (PathError ENOENT), st_nested) \<and>
   fst (os_MkdirAll st_nested ''/data/q'') = None \<and>
   fst (ioutil_WriteFile (snd (os_MkdirAll st_nested ''/data/q'')) ''/data/q/f'' [3]) = None"
  by code_simp

subsection \<open>Removal\<close>


lemma purge_entries_length: "length (purge_entries now es) \<le> length es"
  by (induction es) (auto split: option.splits)

lemma purge_idem:
  "(\<forall>n'. purge now n = Some n' \<longrightarrow> purge now n' = Some n')"
  "purge_entries now (purge_entries now es) = purge_entries now es"
proof (induction now n and now es rule: purge_purge_entries.induct)
  case (3 now es t)
  then show ?case by (auto simp: Let_def split: if_splits)
next
  case (5 now s c es)
  then show ?case by (auto split: option.splits)
qed auto

lemma purge_entries_idem_time:
  "(if length (purge_entries now (purge_entries now es)) < length (purge_entries now es)
    then now else t) = t"
  by (simp add: purge_idem)

lemma update_update [simp]: "AList.update k v (AList.update k w al) = AList.update k v al"
  by (induction al) auto

lemma map_of_delete [simp]: "map_of (AList.delete k al) = (map_of al)(k := None)"
  by (rule AList.delete_conv')

lemma remove_at_idem:
  "snd (remove_at now (snd (remove_at now n ss)) ss) = snd (remove_at now n ss)"
proof (induction now n ss rule: remove_at.induct)
  case (3 now es t)
  then show ?case by (simp add: Let_def purge_idem)
next
  case (4 now es t s)
  show ?case
  proof (cases "map_of es s")
    case None
    then show ?thesis by simp
  next
    case (Some c)
    show ?thesis
    proof (cases "purge now c")
      case None
      with Some show ?thesis by simp
    next
      case (Some c')
      with purge_idem(1) [of now c] have "purge now c' = Some c'" by simp
      with Some \<open>map_of es s = Some c\<close> show ?thesis by simp
    qed
  qed
next
  case (5 now es t s v va)
  show ?case
  proof (cases "map_of es s")
    case None
    then show ?thesis by simp
  next
    case (Some c)
    with 5 show ?thesis by (auto split: prod.splits)
  qed
qed auto


lemma os_RemoveAll_idem:
  "snd (os_RemoveAll (snd (os_RemoveAll st p)) p) = snd (os_RemoveAll st p)"
proof -
  have "snd (remove_at now (snd (remove_at now n ss)) ss) = snd (remove_at now n ss)" for now n ss
    by (rule remove_at_idem)
  then have "remove_at now n ss = (e, n') \<Longrightarrow> remove_at now n' ss = (e', n'') \<Longrightarrow> n'' = n'"
    for now n ss e n' e' n''
    by (metis snd_conv)
  then show ?thesis
    by (auto simp: os_RemoveAll_def split: prod.splits)
qed

lemma Remove_state:
  "snd (Remove cm st p) = st \<or>
   snd (Remove cm st p) = snd (os_RemoveAll st (Join (localPath cm) p))"
  by (auto simp: Remove_def Let_def split: prod.splits option.splits)

lemma Remove_idem: "snd (Remove cm (snd (Remove cm st p)) p) = snd (Remove cm st p)"
proof -
  let ?abs = "Join (localPath cm) p"
  consider "snd (Remove cm st p) = st"
    | "snd (Remove cm st p) \<noteq> st" "snd (Remove cm st p) = snd (os_RemoveAll st ?abs)"
    using Remove_state [of cm st p] by blast
  then show ?thesis
  proof cases
    case 1
    then show ?thesis by simp
  next
    case 2
    let ?st1 = "snd (os_RemoveAll st ?abs)"
    from Remove_state [of cm ?st1 p] os_RemoveAll_idem [of st ?abs] 2
    show ?thesis by auto
  qed
qed

lemma remove_at_gone:
  "fst (remove_at now n ss) = None \<Longrightarrow> lookup (snd (remove_at now n ss)) ss = Inl ENOENT"
proof (induction now n ss rule: remove_at.induct)
  case (4 now es t s)
  then show ?case by (auto split: option.splits)
next
  case (5 now es t s v va)
  then show ?case by (auto split: option.splits prod.splits)
qed (auto simp: Let_def)

text \<open>
  C7, as the code has it.  When the stat of the resolved path reports \<^verbatim>\<open>ENOENT\<close>,
  \<open>Remove\<close> returns no error and leaves the state as it is.  For every path, a second
  \<open>Remove\<close> leaves the state the first one produced; and after a \<open>Remove\<close> that returned
  no error the second one returns no error either.
\<close>

theorem Remove_absent_and_idempotent:
  "(os_Stat st (Join (localPath cm) p) = Inl ENOENT \<longrightarrow> Remove cm st p = (None, st)) \<and>
   snd (Remove cm (snd (Remove cm st p)) p) = snd (Remove cm st p) \<and>
   (Remove cm st p = (None, st') \<longrightarrow> Remove cm st' p = (None, st'))"
proof -
  have a: "Remove cm st p = (None, st)" if "os_Stat st (Join (localPath cm) p) = Inl ENOENT"
    using that by (simp add: Remove_def Exist_def os_IsNotExist_def)
  have c: "Remove cm st' p = (None, st')" if r: "Remove cm st p = (None, st')"
  proof -
    let ?abs = "Join (localPath cm) p"
    show ?thesis
    proof (cases "Exist cm st p")
      case (Pair ex err)
      with r have err: "err = None"
        by (auto simp: Remove_def split: option.splits)
      show ?thesis
      proof (cases ex)
        case False
        with Pair err r show ?thesis by (auto simp: Remove_def)
      next
        case True
        with Pair err r have ra: "os_RemoveAll st ?abs = (None, st')"
          by (auto simp: Remove_def Let_def split: prod.splits option.splits)
        from True Pair have ne: "?abs \<noteq> []"
          by (auto simp: Exist_def os_Stat_def Let_def split: if_splits)
        from ra ne have "lookup (tree st') (segs ?abs) = Inl ENOENT"
          using remove_at_gone [of "clock st" "tree st" "segs ?abs"]
          by (auto simp: os_RemoveAll_def split: if_splits prod.splits)
        with ne have "os_Stat st' ?abs = Inl ENOENT" by (simp add: os_Stat_def)
        then show ?thesis by (simp add: Remove_def Exist_def os_IsNotExist_def)
      qed
    qed
  qed
  from a c Remove_idem show ?thesis by blast
qed

theorem Remove_absent_and_idempotent_witness:
  "os_Stat st0 (Join (localPath cm0) ''nope'') = Inl ENOENT \<and>
   Remove cm0 st0 ''nope'' = (None, st0) \<and>
   fst (Remove cm0 st0 ''a/b'') = None \<and>
   Remove cm0 (snd (Remove cm0 st0 ''a/b'')) ''a/b'' = (None, snd (Remove cm0 st0 ''a/b'')) \<and>
   os_Stat (snd (Remove cm0 st0 ''a/b'')) (Join (localPath cm0) ''a/b'') = Inl ENOENT"
proof -
  have s: "os_Stat st0 (Join (localPath cm0) ''nope'') = Inl ENOENT"
    by code_simp
  have r: "fst (Remove cm0 st0 ''a/b'') = None"
    by code_simp
  then have r': "Remove cm0 st0 ''a/b'' = (None, snd (Remove cm0 st0 ''a/b''))"
    by (simp add: prod_eq_iff)
  have g: "os_Stat (snd (Remove cm0 st0 ''a/b'')) (Join (localPath cm0) ''a/b'') = Inl ENOENT"
    by code_simp
  show ?thesis
    using s r r' g
      Remove_absent_and_idempotent [of st0 cm0 "''nope''" st0]
      Remove_absent_and_idempotent [of st0 cm0 "''a/b''" "snd (Remove cm0 st0 ''a/b'')"]
    by simp
qed

text \<open>
  A path below a regular file names nothing, yet its stat reports \<^verbatim>\<open>ENOTDIR\<close>, which
  \<open>Exist\<close> does not take for absence: \<open>Remove\<close> returns that error.
\<close>

theorem Remove_below_regular_file:
  "lookup (tree st0) (segs (Join (localPath cm0) ''a/b/x.txt'')) = Inr (File [1, 2, 3] 11) \<and>
   os_Stat st0 (Join (localPath cm0) ''a/b/x.txt/k'') = Inl ENOTDIR \<and>
   Exist cm0 st0 ''a/b/x.txt/k'' = (False, Some (PathError ENOTDIR)) \<and>
   Remove cm0 st0 ''a/b/x.txt/k'' = (Some (PathError ENOTDIR), st0)"
  by code_simp

subsection \<open>Recursive listing\<close>

lemma walk_set:
  "wf_node n \<Longrightarrow>
   set (walk p n) = {entry_visit (foldl Join p names) m | names m. node_at n names = Some m}"
proof (induction p n rule: walk.induct)
  case (1 p c t)
  have "node_at (File c t) names = Some m \<longleftrightarrow> names = [] \<and> m = File c t" for names m
    by (cases names) auto
  then show ?case by auto
next
  case (2 p)
  have "node_at Denied names = Some m \<longleftrightarrow> names = [] \<and> m = Denied" for names m
    by (cases names) auto
  then show ?case by auto
next
  case (3 p es t)
  have dist: "distinct (map fst es)" using 3(2) by simp
  have wfc: "wf_node c" if "(name, c) \<in> set es" for name c
    using 3(2) that by (auto simp: list_all_iff)
  have ih: "set (walk (Join p name) c) =
      {entry_visit (foldl Join (Join p name) names) m | names m. node_at c names = Some m}"
    if "(name, c) \<in> set es" for name c
    using 3(1) [of "(name, c)" name c] that wfc [OF that] by simp
  have mp: "map_of es s = Some c \<longleftrightarrow> (s, c) \<in> set es" for s c
    using dist by simp
  have split: "node_at (Dir es t) names = Some m \<longleftrightarrow>
      (names = [] \<and> m = Dir es t) \<or>
      (\<exists>s ss c. names = s # ss \<and> (s, c) \<in> set es \<and> node_at c ss = Some m)" for names m
  proof (cases names)
    case Nil
    then show ?thesis by auto
  next
    case (Cons s ss)
    show ?thesis
    proof (cases "map_of es s")
      case None
      then have "(s, c) \<notin> set es" for c using mp [of s c] by simp
      with None Cons show ?thesis by simp
    next
      case (Some c')
      then have "(s, c) \<in> set es \<longleftrightarrow> c = c'" for c using mp [of s c] by auto
      with Some Cons show ?thesis by simp
    qed
  qed
  have mem: "v \<in> set (walk p (Dir es t)) \<longleftrightarrow>
      v = entry_visit p (Dir es t) \<or>
      (\<exists>name c. (name, c) \<in> set es \<and> v \<in> set (walk (Join p name) c))" for v
    by auto
  have "v \<in> set (walk p (Dir es t)) \<longleftrightarrow>
      (\<exists>names m. node_at (Dir es t) names = Some m \<and> v = entry_visit (foldl Join p names) m)"
    for v
  proof
    assume "v \<in> set (walk p (Dir es t))"
    then consider "v = entry_visit p (Dir es t)"
      | name c where "(name, c) \<in> set es" "v \<in> set (walk (Join p name) c)"
      using mem by blast
    then show "\<exists>names m. node_at (Dir es t) names = Some m \<and>
        v = entry_visit (foldl Join p names) m"
    proof cases
      case 1
      then have "node_at (Dir es t) [] = Some (Dir es t) \<and>
          v = entry_visit (foldl Join p []) (Dir es t)" by simp
      then show ?thesis by blast
    next
      case 2
      with ih [OF 2(1)] obtain names m where
        nm: "node_at c names = Some m" "v = entry_visit (foldl Join (Join p name) names) m"
        by blast
      from nm(1) 2(1) have "node_at (Dir es t) (name # names) = Some m"
        using split [of "name # names" m] by blast
      moreover from nm(2) have "v = entry_visit (foldl Join p (name # names)) m" by simp
      ultimately show ?thesis by blast
    qed
  next
    assume "\<exists>names m. node_at (Dir es t) names = Some m \<and>
        v = entry_visit (foldl Join p names) m"
    then obtain names m where
      nm: "node_at (Dir es t) names = Some m" "v = entry_visit (foldl Join p names) m"
      by blast
    from nm(1) split [of names m] consider "names = []" "m = Dir es t"
      | s ss c where "names = s # ss" "(s, c) \<in> set es" "node_at c ss = Some m"
      by blast
    then show "v \<in> set (walk p (Dir es t))"
    proof cases
      case 1
      with nm(2) show ?thesis by simp
    next
      case 2
      with nm(2) have "v \<in> set (walk (Join p s) c)"
        using ih [OF 2(2)] by auto
      with 2(2) mem show ?thesis by blast
    qed
  qed
  then show ?case by blast
qed


lemma Clean_nonempty [simp]: "Clean p \<noteq> []"
  by (simp add: Clean_def Let_def)

lemma Dir_of_nonempty [simp]: "Dir_of p \<noteq> []"
  by (simp add: Dir_of_def)

lemma lookup_append:
  "lookup n (a @ b) = (case lookup n a of Inl e \<Rightarrow> Inl e | Inr m \<Rightarrow> lookup m b)"
proof (induction n a rule: lookup.induct)
  case (2 c t)
  then show ?case by (cases b) auto
qed (auto split: option.splits)

lemma lookup_node_at:
  "lookup n ss = Inr m \<longleftrightarrow> node_at n ss = Some m \<and> m \<noteq> Denied"
proof (induction n ss rule: lookup.induct)
  case (1 ss)
  then show ?case by (cases ss) auto
qed (auto split: option.splits)

lemma wf_node_child:
  "wf_node (Dir es t) \<Longrightarrow> map_of es s = Some c \<Longrightarrow> wf_node c"
  by (auto simp: list_all_iff dest: map_of_SomeD)

lemma wf_node_at: "wf_node n \<Longrightarrow> node_at n ss = Some m \<Longrightarrow> wf_node m"
proof (induction n ss rule: node_at.induct)
  case (2 es t s ss)
  show ?case
  proof (cases "map_of es s")
    case None
    with 2 show ?thesis by simp
  next
    case (Some c)
    with 2 wf_node_child [OF 2(2) Some] show ?thesis by simp
  qed
qed auto

lemma matches_entry_visit:
  "matches ap (entry_visit w m) \<longleftrightarrow> HasPrefix w ap \<and> (\<exists>c t. m = File c t)"
  by (cases m) (auto simp: matches_def)

lemma nil_hit_entry_visit:
  "nil_hit ap (entry_visit w m) \<longleftrightarrow> HasPrefix w ap \<and> m = Denied"
  by (cases m) (auto simp: nil_hit_def)

lemma fst_entry_visit [simp]: "fst (entry_visit w m) = w"
  by (cases m) auto

lemma run_visits_walkFn:
  "run_visits (walkFn cm ap) vs acc =
     (if list_ex (nil_hit ap) vs then Panics
      else Returns (None, acc @ map (\<lambda>v. TrimPrefix (fst v) (localPath cm)) (filter (matches ap) vs)))"
proof (induction vs arbitrary: acc)
  case Nil
  then show ?case by simp
next
  case (Cons v vs)
  obtain w f e where v: "v = (w, f, e)" by (cases v)
  have step: "walkFn cm ap v acc =
      (if nil_hit ap v then Panics
       else Returns (None, if matches ap v then acc @ [TrimPrefix (fst v) (localPath cm)]
                           else acc))" for acc
    by (cases f) (auto simp: v walkFn_def nil_hit_def matches_def)
  show ?case
    using Cons.IH by (simp add: step)
qed

lemma ListWithPrefix_recursive_eq:
  "ListWithPrefix glob cm st pre True =
     (if list_ex (nil_hit (Join (localPath cm) pre))
           (walk_visits st (Dir_of (Join (localPath cm) pre)))
      then Panics
      else Returns (modTimes_loop cm st
             (map (\<lambda>w. TrimPrefix w (localPath cm)) (matched cm st pre))
             (map (\<lambda>w. TrimPrefix w (localPath cm)) (matched cm st pre)) []))"
  by (simp add: ListWithPrefix_def filepath_Walk_def run_visits_walkFn matched_def Let_def
      comp_def)

lemma matched_set:
  assumes wf: "wf_node (tree st)"
  shows "set (matched cm st pre) =
     {w. \<exists>names c t.
        lookup (tree st) (segs (Dir_of (Join (localPath cm) pre)) @ names) = Inr (File c t) \<and>
        w = foldl Join (Dir_of (Join (localPath cm) pre)) names \<and>
        HasPrefix w (Join (localPath cm) pre)}"
proof -
  let ?ap = "Join (localPath cm) pre"
  let ?dir = "Dir_of ?ap"
  show ?thesis
  proof (cases "lookup (tree st) (segs ?dir)")
    case (Inl e)
    then have "matched cm st pre = []"
      by (simp add: matched_def walk_visits_def matches_def)
    moreover from Inl have "lookup (tree st) (segs ?dir @ names) = Inl e" for names
      by (simp add: lookup_append)
    ultimately show ?thesis by simp
  next
    case (Inr n)
    then have nat: "node_at (tree st) (segs ?dir) = Some n"
      by (simp add: lookup_node_at)
    have wfn: "wf_node n" by (rule wf_node_at [OF wf nat])
    have vis: "walk_visits st ?dir = walk ?dir n"
      using Inr by (simp add: walk_visits_def)
    have lk: "lookup (tree st) (segs ?dir @ names) = Inr (File c t) \<longleftrightarrow>
        node_at n names = Some (File c t)" for names c t
    proof -
      have "lookup (tree st) (segs ?dir @ names) = lookup n names"
        using Inr by (simp add: lookup_append)
      then show ?thesis by (simp add: lookup_node_at)
    qed
    have "set (matched cm st pre) = fst ` {v \<in> set (walk ?dir n). matches ?ap v}"
      by (simp add: matched_def vis Let_def)
    also have "\<dots> = {w. \<exists>names c t. node_at n names = Some (File c t) \<and>
        w = foldl Join ?dir names \<and> HasPrefix w ?ap}"
    proof (intro set_eqI iffI)
      fix w assume "w \<in> fst ` {v \<in> set (walk ?dir n). matches ?ap v}"
      then obtain v where v: "v \<in> set (walk ?dir n)" "matches ?ap v" "w = fst v" by blast
      from v(1) obtain names m where
        nm: "node_at n names = Some m" "v = entry_visit (foldl Join ?dir names) m"
        unfolding walk_set [OF wfn] by blast
      with v(2,3) show "w \<in> {w. \<exists>names c t. node_at n names = Some (File c t) \<and>
          w = foldl Join ?dir names \<and> HasPrefix w ?ap}"
        by (auto simp: matches_entry_visit)
    next
      fix w assume "w \<in> {w. \<exists>names c t. node_at n names = Some (File c t) \<and>
          w = foldl Join ?dir names \<and> HasPrefix w ?ap}"
      then obtain names c t where
        nm: "node_at n names = Some (File c t)" "w = foldl Join ?dir names" "HasPrefix w ?ap"
        by blast
      let ?v = "entry_visit w (File c t)"
      from nm(1,2) have "?v \<in> set (walk ?dir n)"
        unfolding walk_set [OF wfn] by blast
      moreover from nm(3) have "matches ?ap ?v" by (simp only: matches_entry_visit) blast
      moreover have "w = fst ?v" by simp
      ultimately show "w \<in> fst ` {v \<in> set (walk ?dir n). matches ?ap v}" by blast
    qed
    finally show ?thesis by (simp add: lk)
  qed
qed



subsection \<open>Cleaned paths\<close>

lemma Clean_render:
  "p \<noteq> [] \<Longrightarrow>
   Clean p = render (hd p = CHR ''/'') (rev (foldl (clean_elem (hd p = CHR ''/'')) [] (split_slash p)))"
  by (simp add: Clean_def render_def Let_def)

lemma split_slash_nonempty [simp]: "split_slash s \<noteq> []"
  by (induction s) (auto split: list.splits)

lemma split_slash_append:
  "split_slash (a @ CHR ''/'' # b) = split_slash a @ split_slash b"
  by (induction a) (auto split: list.splits)

lemma split_slash_no_slash: "CHR ''/'' \<notin> set s \<Longrightarrow> split_slash s = [s]"
  by (induction s) auto

lemma split_slash_elems: "e \<in> set (split_slash s) \<Longrightarrow> CHR ''/'' \<notin> set e"
  by (induction s arbitrary: e) (auto split: list.splits if_splits)

lemma split_join_slash:
  "os \<noteq> [] \<Longrightarrow> \<forall>e\<in>set os. CHR ''/'' \<notin> set e \<Longrightarrow> split_slash (join_slash os) = os"
proof (induction os rule: join_slash.induct)
  case 1
  then show ?case by simp
next
  case (2 s)
  then show ?case by (simp add: split_slash_no_slash)
next
  case (3 s t ss)
  then show ?case
    by (simp add: split_slash_append [of s, simplified] split_slash_no_slash)
qed

lemma clean_elem_ok:
  "\<forall>x\<in>set out. elem_ok x \<Longrightarrow> CHR ''/'' \<notin> set e \<Longrightarrow>
   \<forall>x\<in>set (clean_elem r out e). elem_ok x"
  by (auto simp: clean_elem_def elem_ok_def split: list.splits)

lemma foldl_clean_ok:
  "\<forall>x\<in>set out. elem_ok x \<Longrightarrow> \<forall>e\<in>set es. CHR ''/'' \<notin> set e \<Longrightarrow>
   \<forall>x\<in>set (foldl (clean_elem r) out es). elem_ok x"
proof (induction es arbitrary: out)
  case Nil
  then show ?case by simp
next
  case (Cons e es)
  from Cons.prems have "\<forall>x\<in>set (clean_elem r out e). elem_ok x"
    by (intro clean_elem_ok) auto
  with Cons show ?case by simp
qed

lemma segs_render:
  assumes "\<forall>e\<in>set os. elem_ok e"
  shows "segs (render r os) = filter (\<lambda>s. s \<noteq> ''..'') os"
proof (cases "os = []")
  case True
  then show ?thesis by (cases r) (simp_all add: render_def segs_def)
next
  case False
  from assms have ns: "\<forall>e\<in>set os. CHR ''/'' \<notin> set e" by (simp add: elem_ok_def)
  have j: "join_slash os \<noteq> []"
    using False assms by (cases os rule: join_slash.cases) (auto simp: elem_ok_def)
  have flt: "filter (\<lambda>s. s \<noteq> [] \<and> s \<noteq> ''.'' \<and> s \<noteq> ''..'') os = filter (\<lambda>s. s \<noteq> ''..'') os"
    using assms by (intro filter_cong) (auto simp: elem_ok_def)
  show ?thesis
  proof (cases r)
    case True
    have "split_slash (CHR ''/'' # join_slash os) = [] # os"
      using split_join_slash [OF False ns] by simp
    with True flt show ?thesis by (simp add: render_def segs_def)
  next
    case False
    with j flt split_join_slash [OF \<open>os \<noteq> []\<close> ns] show ?thesis
      by (simp add: render_def segs_def)
  qed
qed

lemma stack_ok_Nil [simp]: "stack_ok r []"
  by (simp add: stack_ok_def)

lemma stack_ok_elems: "stack_ok r S \<Longrightarrow> \<forall>e\<in>set S. elem_ok e"
  by (simp add: stack_ok_def)

lemma stack_ok_push:
  assumes "stack_ok r S" "elem_ok e" "e \<noteq> ''..''"
  shows "stack_ok r (e # S)"
proof -
  from assms(1) obtain reals k where
    S: "S = reals @ replicate k ''..''" "''..'' \<notin> set reals" "r \<longrightarrow> k = 0"
    by (auto simp: stack_ok_def)
  have "e # S = (e # reals) @ replicate k ''..''" using S(1) by simp
  moreover have "''..'' \<notin> set (e # reals)" using S(2) assms(3) by auto
  ultimately have "\<exists>reals k. e # S = reals @ replicate k ''..'' \<and> ''..'' \<notin> set reals \<and> (r \<longrightarrow> k = 0)"
    using S(3) by blast
  with assms(1,2) show ?thesis by (simp add: stack_ok_def)
qed

lemma stack_ok_pop:
  assumes "stack_ok r (t # ts)" "t \<noteq> ''..''"
  shows "stack_ok r ts"
proof -
  from assms(1) obtain reals k where
    S: "t # ts = reals @ replicate k ''..''" "''..'' \<notin> set reals" "r \<longrightarrow> k = 0"
    by (auto simp: stack_ok_def)
  have "reals \<noteq> []"
  proof
    assume "reals = []"
    with S(1) have "t \<in> set (replicate k ''..'')" by (metis append_Nil list.set_intros(1))
    with assms(2) show False by simp
  qed
  with S(1) obtain reals' where r': "reals = t # reals'"
    by (cases reals) auto
  with S have "ts = reals' @ replicate k ''..''" "''..'' \<notin> set reals'" by auto
  then have "\<exists>reals k. ts = reals @ replicate k ''..'' \<and> ''..'' \<notin> set reals \<and> (r \<longrightarrow> k = 0)"
    using S(3) by blast
  with assms(1) show ?thesis by (simp add: stack_ok_def)
qed

lemma stack_ok_dotdot_top:
  assumes "stack_ok False S" "S = [] \<or> hd S = ''..''"
  shows "stack_ok False (''..'' # S)"
proof -
  from assms(1) obtain reals k where
    S: "S = reals @ replicate k ''..''" "''..'' \<notin> set reals"
    by (auto simp: stack_ok_def)
  have "reals = []"
  proof (rule ccontr)
    assume "reals \<noteq> []"
    then obtain a as where "reals = a # as" by (cases reals) auto
    with S assms(2) show False by auto
  qed
  with S have "''..'' # S = [] @ replicate (Suc k) ''..''" by simp
  then have "\<exists>reals k'. ''..'' # S = reals @ replicate k' ''..'' \<and> ''..'' \<notin> set reals \<and> (False \<longrightarrow> k' = 0)"
    by (metis empty_iff list.set(1))
  with assms(1) show ?thesis by (simp add: stack_ok_def elem_ok_def)
qed

lemma stack_ok_rooted_no_dotdot: "stack_ok True S \<Longrightarrow> ''..'' \<notin> set S"
  by (auto simp: stack_ok_def)

lemma clean_elem_stack_ok:
  assumes "stack_ok r S" "CHR ''/'' \<notin> set e"
  shows "stack_ok r (clean_elem r S e)"
proof -
  consider "e = [] \<or> e = ''.''" | "e = ''..''" | "elem_ok e" "e \<noteq> ''..''"
    using assms(2) by (auto simp: elem_ok_def)
  then show ?thesis
  proof cases
    case 1
    with assms show ?thesis by (auto simp: clean_elem_def)
  next
    case 2
    show ?thesis
    proof (cases S)
      case Nil
      with 2 show ?thesis
        using stack_ok_dotdot_top [of "[]"] by (cases r) (auto simp: clean_elem_def)
    next
      case (Cons t ts)
      show ?thesis
      proof (cases "t = ''..''")
        case True
        with Cons 2 assms(1) show ?thesis
          using stack_ok_dotdot_top [of S] stack_ok_rooted_no_dotdot [of S]
          by (cases r) (auto simp: clean_elem_def)
      next
        case False
        with Cons 2 assms(1) stack_ok_pop [of r t ts] show ?thesis
          by (auto simp: clean_elem_def)
      qed
    qed
  next
    case 3
    with assms(1) stack_ok_push [of r S e] show ?thesis
      by (auto simp: clean_elem_def elem_ok_def)
  qed
qed

lemma foldl_clean_stack_ok:
  "stack_ok r S \<Longrightarrow> \<forall>e\<in>set es. CHR ''/'' \<notin> set e \<Longrightarrow> stack_ok r (foldl (clean_elem r) S es)"
  by (induction es arbitrary: S) (auto intro: clean_elem_stack_ok)

lemma foldl_clean_reals:
  "\<forall>e\<in>set xs. elem_ok e \<and> e \<noteq> ''..'' \<Longrightarrow> foldl (clean_elem r) acc xs = rev xs @ acc"
  by (induction xs arbitrary: acc) (auto simp: clean_elem_def elem_ok_def)

lemma foldl_clean_dotdots:
  "foldl (clean_elem False) (replicate j ''..'') (replicate k ''..'') = replicate (j + k) ''..''"
proof (induction k arbitrary: j)
  case 0
  then show ?case by simp
next
  case (Suc k)
  have "clean_elem False (replicate j ''..'') ''..'' = replicate (Suc j) ''..''"
    by (cases j) (auto simp: clean_elem_def)
  with Suc [of "Suc j"] show ?case by simp
qed

lemma foldl_clean_rebuild:
  assumes "stack_ok r S"
  shows "foldl (clean_elem r) [] (rev S) = S"
proof -
  from assms obtain reals k where
    S: "S = reals @ replicate k ''..''" "''..'' \<notin> set reals" "r \<longrightarrow> k = 0"
    and ok: "\<forall>e\<in>set S. elem_ok e"
    by (auto simp: stack_ok_def)
  have dd: "foldl (clean_elem r) [] (replicate k ''..'') = replicate k ''..''"
  proof (cases r)
    case True
    with S(3) show ?thesis by simp
  next
    case False
    with foldl_clean_dotdots [of 0 k] show ?thesis by simp
  qed
  have rl: "\<forall>e\<in>set (rev reals). elem_ok e \<and> e \<noteq> ''..''"
    using S ok by auto
  have "rev S = replicate k ''..'' @ rev reals"
    using S(1) by simp
  then have "foldl (clean_elem r) [] (rev S) =
      foldl (clean_elem r) (replicate k ''..'') (rev reals)"
    using dd by simp
  also have "\<dots> = reals @ replicate k ''..''"
    using foldl_clean_reals [OF rl] by simp
  finally show ?thesis using S(1) by simp
qed

lemma join_slash_nonempty:
  "os \<noteq> [] \<Longrightarrow> \<forall>e\<in>set os. e \<noteq> [] \<Longrightarrow> join_slash os \<noteq> []"
  by (cases os rule: join_slash.cases) auto

lemma hd_join_slash:
  "os \<noteq> [] \<Longrightarrow> \<forall>e\<in>set os. e \<noteq> [] \<Longrightarrow> hd (join_slash os) = hd (hd os)"
  by (cases os rule: join_slash.cases) auto

lemma Clean_slash [simp]: "Clean ''/'' = ''/''"
  by code_simp

lemma Clean_dot [simp]: "Clean ''.'' = ''.''"
  by code_simp

lemma clean_elem_empty [simp]: "clean_elem r S [] = S"
  by (simp add: clean_elem_def)

lemma Clean_render_fixed:
  assumes "stack_ok r S"
  shows "Clean (render r (rev S)) = render r (rev S)"
proof (cases "S = []")
  case True
  then show ?thesis by (cases r) (simp_all add: render_def)
next
  case False
  let ?os = "rev S"
  have ok: "\<forall>e\<in>set ?os. elem_ok e" using stack_ok_elems [OF assms] by simp
  then have ns: "\<forall>e\<in>set ?os. CHR ''/'' \<notin> set e" and ne: "\<forall>e\<in>set ?os. e \<noteq> []"
    by (auto simp: elem_ok_def)
  from False have os: "?os \<noteq> []" by simp
  have j: "join_slash ?os \<noteq> []" by (rule join_slash_nonempty [OF os ne])
  have sp: "split_slash (join_slash ?os) = ?os" by (rule split_join_slash [OF os ns])
  have rb: "foldl (clean_elem r) [] ?os = S" by (rule foldl_clean_rebuild [OF assms])
  show ?thesis
  proof (cases r)
    case True
    have p: "render r ?os = CHR ''/'' # join_slash ?os"
      using True by (simp add: render_def)
    have "split_slash (CHR ''/'' # join_slash ?os) = [] # ?os" using sp by simp
    then have "foldl (clean_elem True) [] (split_slash (CHR ''/'' # join_slash ?os)) = S"
      using rb True by simp
    then have "Clean (CHR ''/'' # join_slash ?os) = render True ?os"
      by (simp add: Clean_render)
    with p True show ?thesis by simp
  next
    case False
    have p: "render r ?os = join_slash ?os"
      using False j by (simp add: render_def)
    have "hd ?os \<in> set ?os" using os by (rule hd_in_set)
    with ok have "hd (hd ?os) \<noteq> CHR ''/''"
      by (metis elem_ok_def hd_in_set)
    then have h: "hd (join_slash ?os) \<noteq> CHR ''/''"
      using hd_join_slash [OF os ne] by simp
    have "foldl (clean_elem False) [] (split_slash (join_slash ?os)) = S"
      using rb False sp by simp
    with h j have "Clean (join_slash ?os) = render False ?os"
      by (simp add: Clean_render)
    with p False show ?thesis by simp
  qed
qed

lemma Clean_normal_form:
  assumes "p \<noteq> []"
  shows "\<exists>S. stack_ok (hd p = CHR ''/'') S \<and> Clean p = render (hd p = CHR ''/'') (rev S) \<and>
             S = foldl (clean_elem (hd p = CHR ''/'')) [] (split_slash p)"
proof -
  have "stack_ok (hd p = CHR ''/'') (foldl (clean_elem (hd p = CHR ''/'')) [] (split_slash p))"
    by (intro foldl_clean_stack_ok) (auto dest: split_slash_elems)
  with Clean_render [OF assms] show ?thesis by blast
qed

lemma Clean_idem [simp]: "Clean (Clean x) = Clean x"
proof (cases "x = []")
  case True
  have "Clean [] = ''.''" by (simp add: Clean_def)
  with True show ?thesis by simp
next
  case False
  from Clean_normal_form [OF False] obtain S where
    "stack_ok (hd x = CHR ''/'') S" "Clean x = render (hd x = CHR ''/'') (rev S)"
    by blast
  then show ?thesis using Clean_render_fixed by simp
qed

lemma plain_elem_ok: "plain name \<Longrightarrow> elem_ok name \<and> name \<noteq> ''..''"
  by (simp add: plain_def elem_ok_def)

lemma Join_child:
  assumes cl: "Clean p = p" and pl: "plain name"
  shows "segs (Join p name) = segs p @ [name]" and "Clean (Join p name) = Join p name"
proof -
  have pne: "p \<noteq> []" using cl Clean_nonempty [of p] by auto
  let ?r = "hd p = CHR ''/''"
  from Clean_normal_form [OF pne] obtain S where
    S: "stack_ok ?r S" "Clean p = render ?r (rev S)"
       "S = foldl (clean_elem ?r) [] (split_slash p)"
    by blast
  from pl have nm: "elem_ok name" "name \<noteq> ''..''" "CHR ''/'' \<notin> set name" "name \<noteq> []" "name \<noteq> ''.''"
    by (auto simp: plain_def elem_ok_def)
  let ?q = "p @ CHR ''/'' # name"
  have "split_slash ?q = split_slash p @ [name]"
    using nm(3) by (simp add: split_slash_append split_slash_no_slash)
  then have "foldl (clean_elem ?r) [] (split_slash ?q) = name # S"
    using S(3) nm by (simp add: clean_elem_def)
  moreover have "hd ?q = hd p" using pne by simp
  moreover have "?q \<noteq> []" by simp
  ultimately have q: "Clean ?q = render ?r (rev S @ [name])"
    using Clean_render [of ?q] by simp
  have j: "Join p name = Clean ?q" using pne by (simp add: Join_def)
  have ok1: "\<forall>e\<in>set (rev S). elem_ok e" using stack_ok_elems [OF S(1)] by simp
  then have ok2: "\<forall>e\<in>set (rev S @ [name]). elem_ok e" using nm(1) by simp
  have "segs p = filter (\<lambda>s. s \<noteq> ''..'') (rev S)"
    using segs_render [OF ok1, of ?r] S(2) cl by simp
  moreover have "segs (Join p name) = filter (\<lambda>s. s \<noteq> ''..'') (rev S @ [name])"
    using segs_render [OF ok2, of ?r] q j by simp
  ultimately show "segs (Join p name) = segs p @ [name]"
    using nm(2) by simp
  show "Clean (Join p name) = Join p name"
    using j by simp
qed

lemma foldl_Join_segs:
  "Clean p = p \<Longrightarrow> \<forall>name\<in>set names. plain name \<Longrightarrow>
   segs (foldl Join p names) = segs p @ names \<and> Clean (foldl Join p names) = foldl Join p names"
proof (induction names arbitrary: p)
  case Nil
  then show ?case by simp
next
  case (Cons name names)
  from Cons.prems have pl: "plain name" by simp
  note jc = Join_child [OF Cons.prems(1) pl]
  from Cons.IH [OF jc(2)] Cons.prems(2) jc(1) show ?case by simp
qed

text \<open>The last element of a cleaned path is never a dot.\<close>

lemma last_split_endsWithDot: "endsWithDot s \<Longrightarrow> last (split_slash s) = ''.''"
proof -
  assume e: "endsWithDot s"
  show ?thesis
  proof (cases "s = ''.''")
    case True
    then show ?thesis by simp
  next
    case False
    with e have l: "length s \<ge> 2" "last s = CHR ''.''" "last (butlast s) = CHR ''/''"
      by (auto simp: endsWithDot_def)
    from l(1) have "s \<noteq> []" by auto
    moreover from l(1) have "length (butlast s) \<ge> 1" by simp
    then have "butlast s \<noteq> []" by (metis length_0_conv not_one_le_zero)
    ultimately have "s = butlast (butlast s) @ [last (butlast s), last s]"
      by (metis append_butlast_last_id append.assoc append_Cons append_Nil)
    with l have "s = butlast (butlast s) @ CHR ''/'' # ''.''" by simp
    then have "split_slash s = split_slash (butlast (butlast s)) @ split_slash ''.''"
      by (metis split_slash_append)
    then show ?thesis by simp
  qed
qed

lemma last_split_render:
  assumes "os \<noteq> []" "\<forall>e\<in>set os. elem_ok e"
  shows "last (split_slash (render r os)) = last os"
proof -
  from assms have ns: "\<forall>e\<in>set os. CHR ''/'' \<notin> set e" and ne: "\<forall>e\<in>set os. e \<noteq> []"
    by (auto simp: elem_ok_def)
  have j: "join_slash os \<noteq> []" by (rule join_slash_nonempty [OF assms(1) ne])
  have sp: "split_slash (join_slash os) = os" by (rule split_join_slash [OF assms(1) ns])
  show ?thesis
    using j sp assms(1) by (cases r) (simp_all add: render_def)
qed

lemma endsWithDot_Clean: "endsWithDot (Clean x) \<Longrightarrow> segs (Clean x) = []"
proof -
  assume e: "endsWithDot (Clean x)"
  show ?thesis
  proof (cases "x = []")
    case True
    have "Clean [] = ''.''" by (simp add: Clean_def)
    with True show ?thesis by (simp add: segs_def)
  next
    case False
    from Clean_normal_form [OF False] obtain S where
      S: "stack_ok (hd x = CHR ''/'') S" "Clean x = render (hd x = CHR ''/'') (rev S)"
      by blast
    have ok: "\<forall>e\<in>set (rev S). elem_ok e" using stack_ok_elems [OF S(1)] by simp
    show ?thesis
    proof (cases "S = []")
      case True
      with S(2) ok show ?thesis using segs_render [of "[]"] by simp
    next
      case False
      then have "rev S \<noteq> []" by simp
      from last_split_render [OF this ok] S(2)
      have "last (split_slash (Clean x)) = last (rev S)" by simp
      with last_split_endsWithDot [OF e] have "last (rev S) = ''.''" by simp
      moreover have "last (rev S) \<in> set (rev S)" using \<open>rev S \<noteq> []\<close> by (rule last_in_set)
      ultimately show ?thesis using ok by (auto simp: elem_ok_def)
    qed
  qed
qed

text \<open>Cleaning never makes a non-empty path longer.\<close>

lemma weight_clean_elem: "weight (clean_elem r S e) \<le> weight S + Suc (length e)"
  by (auto simp: clean_elem_def weight_def split: list.splits)

lemma weight_foldl_clean: "weight (foldl (clean_elem r) S es) \<le> weight S + weight es"
proof (induction es arbitrary: S)
  case Nil
  then show ?case by simp
next
  case (Cons e es)
  have "weight (foldl (clean_elem r) (clean_elem r S e) es) \<le> weight (clean_elem r S e) + weight es"
    by (rule Cons.IH)
  also have "\<dots> \<le> weight S + Suc (length e) + weight es"
    using weight_clean_elem [of r S e] by simp
  finally show ?case by (simp add: weight_def)
qed

lemma weight_join_slash: "ws \<noteq> [] \<Longrightarrow> Suc (length (join_slash ws)) = weight ws"
  by (induction ws rule: join_slash.induct) (auto simp: weight_def)

lemma weight_split_slash: "weight (split_slash s) = Suc (length s)"
  by (induction s) (auto simp: weight_def split: list.splits)

lemma weight_rev [simp]: "weight (rev ws) = weight ws"
  by (simp add: weight_def rev_map [symmetric])

lemma length_render_le:
  "length (render r os) \<le> (if r then max 1 (weight os) else max 1 (weight os - 1))"
proof (cases "os = []")
  case True
  then show ?thesis by (cases r) (simp_all add: render_def)
next
  case False
  from weight_join_slash [OF False] show ?thesis
    by (cases r) (auto simp: render_def Let_def)
qed

lemma length_Clean_le:
  assumes "y \<noteq> []"
  shows "length (Clean y) \<le> length y"
proof -
  let ?r = "hd y = CHR ''/''"
  let ?S = "foldl (clean_elem ?r) [] (split_slash y)"
  have c: "Clean y = render ?r (rev ?S)" by (rule Clean_render [OF assms])
  from assms have ly: "1 \<le> length y" by (cases y) auto
  show ?thesis
  proof (cases ?r)
    case True
    with assms obtain rest where y: "y = CHR ''/'' # rest" by (cases y) auto
    then have "?S = foldl (clean_elem ?r) [] (split_slash rest)" by simp
    then have "weight ?S \<le> weight (split_slash rest)"
      using weight_foldl_clean [of ?r "[]" "split_slash rest"] by (simp add: weight_def)
    then have "weight ?S \<le> length y" using y by (simp add: weight_split_slash)
    with length_render_le [of ?r "rev ?S"] True ly c show ?thesis by simp
  next
    case False
    have "weight ?S \<le> weight (split_slash y)"
      using weight_foldl_clean [of ?r "[]" "split_slash y"] by (simp add: weight_def)
    then have "weight ?S - 1 \<le> length y" by (simp add: weight_split_slash)
    with length_render_le [of ?r "rev ?S"] False ly c show ?thesis by simp
  qed
qed

lemma join_slash_last_nonempty:
  "os \<noteq> [] \<Longrightarrow> last os \<noteq> [] \<Longrightarrow> join_slash os \<noteq> []"
  by (induction os rule: join_slash.induct) auto

lemma last_join_slash:
  "os \<noteq> [] \<Longrightarrow> last os \<noteq> [] \<Longrightarrow> last (join_slash os) = last (last os)"
proof (induction os rule: join_slash.induct)
  case (3 s t ss)
  then have "join_slash (t # ss) \<noteq> []"
    using join_slash_last_nonempty [of "t # ss"] by simp
  with 3 show ?case by simp
qed auto

lemma Clean_trailing_slash:
  assumes "last (Clean x) = CHR ''/''"
  shows "Clean x = ''/''"
proof (cases "x = []")
  case True
  have "Clean [] = ''.''" by (simp add: Clean_def)
  with True assms show ?thesis by simp
next
  case False
  from Clean_normal_form [OF False] obtain S where
    S: "stack_ok (hd x = CHR ''/'') S" "Clean x = render (hd x = CHR ''/'') (rev S)"
    by blast
  have ok: "\<forall>e\<in>set (rev S). elem_ok e" using stack_ok_elems [OF S(1)] by simp
  show ?thesis
  proof (cases "S = []")
    case True
    with S(2) assms show ?thesis by (cases "hd x = CHR ''/''") (simp_all add: render_def)
  next
    case False
    then have os: "rev S \<noteq> []" by simp
    then have lin: "last (rev S) \<in> set (rev S)" by (rule last_in_set)
    with ok have l: "last (rev S) \<noteq> []" "CHR ''/'' \<notin> set (last (rev S))"
      by (auto simp: elem_ok_def)
    from ok have ne: "\<forall>e\<in>set (rev S). e \<noteq> []" by (auto simp: elem_ok_def)
    have j: "join_slash (rev S) \<noteq> []" by (rule join_slash_nonempty [OF os ne])
    have "last (render (hd x = CHR ''/'') (rev S)) = last (join_slash (rev S))"
      using j by (simp add: render_def)
    also have "\<dots> = last (last (rev S))" by (rule last_join_slash [OF os l(1)])
    finally have "last (last (rev S)) = CHR ''/''" using assms S(2) by simp
    moreover have "last (last (rev S)) \<in> set (last (rev S))" using l(1) by (rule last_in_set)
    ultimately show ?thesis using l(2) by simp
  qed
qed

lemma Dir_of_prefix_is_root:
  assumes "HasPrefix (Dir_of x) x"
  shows "segs (Dir_of x) = []"
proof -
  let ?y = "rev (dropWhile (\<lambda>c. c \<noteq> CHR ''/'') (rev x))"
  have d: "Dir_of x = Clean ?y" by (simp add: Dir_of_def)
  from assms have tk: "take (length x) (Clean ?y) = x" by (simp add: HasPrefix_def d)
  have "length (take (length x) (Clean ?y)) \<le> length (Clean ?y)" by simp
  with tk have lx: "length x \<le> length (Clean ?y)" by simp
  have ly: "length ?y \<le> length x"
    using length_dropWhile_le [of "\<lambda>c. c \<noteq> CHR ''/''" "rev x"] by simp
  show ?thesis
  proof (cases "?y = []")
    case True
    have "Clean [] = ''.''" by (simp add: Clean_def)
    with d [unfolded True] have "Dir_of x = ''.''" by (simp only:)
    then show ?thesis by (simp add: segs_def)
  next
    case False
    from length_Clean_le [OF False] lx ly have eq: "length (Clean ?y) = length x" "length ?y = length x"
      by auto
    with tk have cx: "Clean ?y = x" by simp
    let ?P = "\<lambda>c. c \<noteq> CHR ''/''"
    have "length (takeWhile ?P (rev x) @ dropWhile ?P (rev x)) = length (rev x)"
      by (simp only: takeWhile_dropWhile_id)
    then have "length (takeWhile ?P (rev x)) + length (dropWhile ?P (rev x)) = length (rev x)"
      by (simp only: length_append)
    with eq(2) have "takeWhile ?P (rev x) = []" by simp
    with takeWhile_dropWhile_id [of ?P "rev x"] have "dropWhile ?P (rev x) = rev x" by simp
    then have yx: "?y = x" by simp
    from False have dne: "dropWhile ?P (rev x) \<noteq> []" by simp
    have "hd (dropWhile ?P (rev x)) = CHR ''/''"
      using hd_dropWhile [OF dne] by simp
    then have "last ?y = CHR ''/''"
      using dne by (simp add: last_rev)
    with cx yx have "last (Clean ?y) = CHR ''/''" by simp
    from Clean_trailing_slash [OF this] d have "Dir_of x = ''/''" by simp
    then show ?thesis by (simp add: segs_def)
  qed
qed

subsection \<open>Removing the files of a listing\<close>

lemma kind_at_Nil [simp]: "kind_at n [] = Some (kind_of n)"
  by (simp add: kind_at_def)

lemma kind_at_Dir_Cons [simp]:
  "kind_at (Dir es t) (s # ss) = (case map_of es s of None \<Rightarrow> None | Some c \<Rightarrow> kind_at c ss)"
  by (simp add: kind_at_def split: option.splits)

lemma kind_at_File_Cons [simp]: "kind_at (File c t) (s # ss) = None"
  by (simp add: kind_at_def)

lemma kind_at_Denied_Cons [simp]: "kind_at Denied (s # ss) = None"
  by (simp add: kind_at_def)

lemma node_at_append:
  "node_at n (a @ b) = (case node_at n a of None \<Rightarrow> None | Some m \<Rightarrow> node_at m b)"
  by (induction n a rule: node_at.induct) (auto split: option.splits)

lemma kind_at_File_iff: "kind_at n P = Some KFile \<longleftrightarrow> (\<exists>c t. lookup n P = Inr (File c t))"
proof -
  have "kind_at n P = Some KFile \<longleftrightarrow> (\<exists>c t. node_at n P = Some (File c t))"
  proof
    assume "kind_at n P = Some KFile"
    then obtain m where "node_at n P = Some m" "kind_of m = KFile"
      by (auto simp: kind_at_def)
    then show "\<exists>c t. node_at n P = Some (File c t)" by (cases m) auto
  qed (auto simp: kind_at_def)
  then show ?thesis by (simp add: lookup_node_at)
qed

lemma lookup_Nil_Inr: "lookup d [] = Inr m \<Longrightarrow> d = m"
  by (cases d) auto

lemma remove_file_kind:
  "lookup n P = Inr (File c0 t0) \<Longrightarrow> P \<noteq> [] \<Longrightarrow>
   fst (remove_at now n P) = None \<and>
   kind_at (snd (remove_at now n P)) Q = (if Q = P then None else kind_at n Q)"
proof (induction now n P arbitrary: Q rule: remove_at.induct)
  case (4 now es t s)
  from 4(1) obtain d where "map_of es s = Some d" "lookup d [] = Inr (File c0 t0)"
    by (auto split: option.splits)
  then have m: "map_of es s = Some (File c0 t0)"
    using lookup_Nil_Inr by blast
  show ?case
  proof (cases Q)
    case Nil
    with m show ?thesis by simp
  next
    case (Cons q qs)
    with m show ?thesis by (cases qs) (auto split: option.splits)
  qed
next
  case (5 now es t s v va)
  from 5(2) obtain d where m: "map_of es s = Some d" and l: "lookup d (v # va) = Inr (File c0 t0)"
    by (auto split: option.splits)
  obtain e d' where r: "remove_at now d (v # va) = (e, d')"
    by (cases "remove_at now d (v # va)")
  from 5(1) [OF m l] r have ih:
    "e = None"
    "\<And>Q. kind_at d' Q = (if Q = v # va then None else kind_at d Q)"
    by auto
  show ?case
  proof (cases Q)
    case Nil
    with m ih r show ?thesis by simp
  next
    case (Cons q qs)
    with m ih r show ?thesis by (auto split: option.splits)
  qed
next
  case (2 now c t ss)
  then show ?case by (cases ss) auto
qed auto

lemma set_update_subset:
  "(k', v') \<in> set (AList.update k v al) \<Longrightarrow> (k', v') = (k, v) \<or> (k', v') \<in> set al"
  by (induction al) (auto split: if_splits)

lemma wf_node_update:
  assumes "wf_node (Dir es t)" "map_of es s = Some c" "wf_node c'"
  shows "wf_node (Dir (AList.update s c' es) t')"
proof -
  from assms(1) have d: "distinct (map fst es)"
    and a: "\<forall>(name, c)\<in>set es. plain name \<and> wf_node c"
    by (auto simp: list_all_iff)
  from assms(2) have "(s, c) \<in> set es" by (rule map_of_SomeD)
  with a have ps: "plain s" by auto
  have "distinct (map fst (AList.update s c' es))" using d by (rule distinct_update)
  moreover have "plain name \<and> wf_node x" if "(name, x) \<in> set (AList.update s c' es)" for name x
    using set_update_subset [OF that] a ps assms(3) by auto
  ultimately show ?thesis by (auto simp: list_all_iff)
qed

lemma wf_node_delete:
  assumes "wf_node (Dir es t)"
  shows "wf_node (Dir (AList.delete s es) t')"
proof -
  from assms have d: "distinct (map fst es)"
    and a: "\<forall>(name, c)\<in>set es. plain name \<and> wf_node c"
    by (auto simp: list_all_iff)
  have "distinct (map fst (AList.delete s es))" using d by (rule distinct_delete)
  moreover have "set (AList.delete s es) \<subseteq> set es" by (auto simp: AList.delete_eq)
  ultimately show ?thesis using a by (auto simp: list_all_iff)
qed

lemma remove_file_wf:
  "wf_node n \<Longrightarrow> lookup n P = Inr (File c0 t0) \<Longrightarrow> P \<noteq> [] \<Longrightarrow>
   wf_node (snd (remove_at now n P))"
proof (induction now n P rule: remove_at.induct)
  case (2 now c t ss)
  then show ?case by simp
next
  case (4 now es t s)
  from 4(2) obtain d where "map_of es s = Some d" "lookup d [] = Inr (File c0 t0)"
    by (auto split: option.splits)
  then have m: "map_of es s = Some (File c0 t0)"
    using lookup_Nil_Inr by blast
  with wf_node_delete [OF 4(1)] show ?case by simp
next
  case (5 now es t s v va)
  from 5(3) obtain d where m: "map_of es s = Some d" and l: "lookup d (v # va) = Inr (File c0 t0)"
    by (auto split: option.splits)
  have wd: "wf_node d" by (rule wf_node_child [OF 5(2) m])
  obtain e d' where r: "remove_at now d (v # va) = (e, d')"
    by (cases "remove_at now d (v # va)")
  from 5(1) [OF m wd l] r have "wf_node d'" by simp
  from wf_node_update [OF 5(2) m this] m r show ?case by simp
qed auto

lemma lookup_ENOENT:
  "kind_at n P = None \<Longrightarrow> P \<noteq> [] \<Longrightarrow> kind_at n (butlast P) = Some KDir \<Longrightarrow>
   lookup n P = Inl ENOENT"
proof (induction P arbitrary: n)
  case Nil
  then show ?case by simp
next
  case (Cons s ss)
  show ?case
  proof (cases ss)
    case Nil
    with Cons.prems obtain es t where n: "n = Dir es t" by (cases n) auto
    with Nil Cons.prems show ?thesis by (auto split: option.splits)
  next
    case (Cons s' ss')
    with Cons.prems(3) obtain es t where n: "n = Dir es t" by (cases n) auto
    with Cons Cons.prems obtain c where c: "map_of es s = Some c"
      by (auto split: option.splits)
    from n c Cons Cons.prems have "kind_at c ss = None" "kind_at c (butlast ss) = Some KDir"
      by auto
    with Cons.IH [of c] Cons have "lookup c ss = Inl ENOENT" by simp
    with n c show ?thesis by simp
  qed
qed

lemma parent_is_dir:
  "lookup n P = Inr m \<Longrightarrow> P \<noteq> [] \<Longrightarrow> kind_at n (butlast P) = Some KDir"
proof (induction n P rule: lookup.induct)
  case (5 es t s ss)
  from 5(2) obtain c where c: "map_of es s = Some c" "lookup c ss = Inr m"
    by (auto split: option.splits)
  show ?case
  proof (cases ss)
    case Nil
    then show ?thesis by simp
  next
    case (Cons a list)
    with 5(1) [OF c(1) c(2)] c(1) show ?thesis by simp
  qed
qed auto

lemma node_at_plain:
  "wf_node n \<Longrightarrow> node_at n names = Some m \<Longrightarrow> \<forall>x\<in>set names. plain x"
proof (induction n names rule: node_at.induct)
  case (2 es t s ss)
  from 2(3) obtain c where c: "map_of es s = Some c" "node_at c ss = Some m"
    by (auto split: option.splits)
  from c(1) have "(s, c) \<in> set es" by (rule map_of_SomeD)
  with 2(2) have "plain s" by (auto simp: list_all_iff)
  moreover from 2(1) [OF c(1) wf_node_child [OF 2(2) c(1)] c(2)] have "\<forall>x\<in>set ss. plain x" .
  ultimately show ?case by simp
qed auto

lemma Clean_Dir_of [simp]: "Clean (Dir_of x) = Dir_of x"
  by (simp add: Dir_of_def)

lemma kind_at_append_plain:
  assumes "wf_node T" "kind_at T (A @ names) = Some k"
  shows "\<forall>x\<in>set names. plain x"
proof -
  from assms(2) obtain m where m: "node_at T (A @ names) = Some m"
    by (auto simp: kind_at_def)
  then obtain n where n: "node_at T A = Some n" "node_at n names = Some m"
    by (auto simp: node_at_append split: option.splits)
  from wf_node_at [OF assms(1) n(1)] have "wf_node n" .
  from node_at_plain [OF this n(2)] show ?thesis .
qed

lemma matched_kind:
  assumes "wf_node (tree st)"
  shows "set (matched cm st pre) =
     {w. \<exists>names.
        kind_at (tree st) (segs (Dir_of (Join (localPath cm) pre)) @ names) = Some KFile \<and>
        w = foldl Join (Dir_of (Join (localPath cm) pre)) names \<and>
        HasPrefix w (Join (localPath cm) pre)}"
proof (intro set_eqI iffI)
  fix w assume "w \<in> set (matched cm st pre)"
  then obtain names c t where
    "lookup (tree st) (segs (Dir_of (Join (localPath cm) pre)) @ names) = Inr (File c t)"
    "w = foldl Join (Dir_of (Join (localPath cm) pre)) names"
    "HasPrefix w (Join (localPath cm) pre)"
    unfolding matched_set [OF assms] by blast
  moreover from this(1)
  have "kind_at (tree st) (segs (Dir_of (Join (localPath cm) pre)) @ names) = Some KFile"
    unfolding kind_at_File_iff by blast
  ultimately show "w \<in> {w. \<exists>names.
        kind_at (tree st) (segs (Dir_of (Join (localPath cm) pre)) @ names) = Some KFile \<and>
        w = foldl Join (Dir_of (Join (localPath cm) pre)) names \<and>
        HasPrefix w (Join (localPath cm) pre)}"
    by blast
next
  fix w assume "w \<in> {w. \<exists>names.
        kind_at (tree st) (segs (Dir_of (Join (localPath cm) pre)) @ names) = Some KFile \<and>
        w = foldl Join (Dir_of (Join (localPath cm) pre)) names \<and>
        HasPrefix w (Join (localPath cm) pre)}"
  then obtain names where n:
    "kind_at (tree st) (segs (Dir_of (Join (localPath cm) pre)) @ names) = Some KFile"
    "w = foldl Join (Dir_of (Join (localPath cm) pre)) names"
    "HasPrefix w (Join (localPath cm) pre)"
    by blast
  from n(1) obtain c t where
    "lookup (tree st) (segs (Dir_of (Join (localPath cm) pre)) @ names) = Inr (File c t)"
    unfolding kind_at_File_iff by blast
  with n(2,3) show "w \<in> set (matched cm st pre)"
    unfolding matched_set [OF assms] by blast
qed

lemma matched_position:
  assumes "wf_node (tree st)" "w \<in> set (matched cm st pre)"
  shows "kind_at (tree st) (segs w) = Some KFile"
proof -
  let ?dir = "Dir_of (Join (localPath cm) pre)"
  from assms(2) obtain names where
    n: "kind_at (tree st) (segs ?dir @ names) = Some KFile" "w = foldl Join ?dir names"
    unfolding matched_kind [OF assms(1)] by blast
  from kind_at_append_plain [OF assms(1) n(1)] have "\<forall>x\<in>set names. plain x" .
  from foldl_Join_segs [OF Clean_Dir_of this] n show ?thesis by simp
qed

lemma nil_hit_intro:
  assumes wf: "wf_node (tree st)" and dir: "dir \<noteq> []"
    and k: "kind_at (tree st) (segs dir @ names) = Some KDenied"
    and h: "HasPrefix (foldl Join dir names) ap"
  shows "list_ex (nil_hit ap) (walk_visits st dir)"
proof -
  from k obtain m where m: "node_at (tree st) (segs dir @ names) = Some m" "kind_of m = KDenied"
    by (auto simp: kind_at_def)
  from m(2) have "m = Denied" by (cases m) auto
  with m(1) obtain n where n: "node_at (tree st) (segs dir) = Some n" "node_at n names = Some Denied"
    by (auto simp: node_at_append split: option.splits)
  show ?thesis
  proof (cases "n = Denied")
    case True
    with n(2) have "names = []" by (cases names) auto
    moreover have "lookup (tree st) (segs dir) \<noteq> Inr x" for x
      using True n(1) by (auto simp: lookup_node_at)
    then have "\<exists>e. lookup (tree st) (segs dir) = Inl e"
      by (cases "lookup (tree st) (segs dir)") auto
    ultimately show ?thesis
      using h dir by (auto simp: walk_visits_def nil_hit_def)
  next
    case False
    with n(1) have l: "lookup (tree st) (segs dir) = Inr n" by (simp add: lookup_node_at)
    have wfn: "wf_node n" by (rule wf_node_at [OF wf n(1)])
    have "entry_visit (foldl Join dir names) Denied \<in> set (walk dir n)"
      unfolding walk_set [OF wfn] using n(2) by blast
    moreover have "nil_hit ap (entry_visit (foldl Join dir names) Denied)"
      using h by (simp only: nil_hit_entry_visit)
    ultimately show ?thesis
      using l dir by (auto simp: walk_visits_def list_ex_iff)
  qed
qed

lemma nil_hit_elim:
  assumes wf: "wf_node (tree st)" and dir: "dir \<noteq> []"
    and p: "list_ex (nil_hit ap) (walk_visits st dir)"
  shows "((\<exists>e. lookup (tree st) (segs dir) = Inl e) \<and> HasPrefix dir ap) \<or>
         (\<exists>names. kind_at (tree st) (segs dir @ names) = Some KDenied \<and>
                  HasPrefix (foldl Join dir names) ap)"
proof (cases "lookup (tree st) (segs dir)")
  case (Inl e)
  with p dir show ?thesis by (auto simp: walk_visits_def nil_hit_def)
next
  case (Inr n)
  then have nat: "node_at (tree st) (segs dir) = Some n" by (simp add: lookup_node_at)
  have wfn: "wf_node n" by (rule wf_node_at [OF wf nat])
  from p Inr dir obtain v where v: "v \<in> set (walk dir n)" "nil_hit ap v"
    by (auto simp: walk_visits_def list_ex_iff)
  from v(1) obtain names m where
    nm: "node_at n names = Some m" "v = entry_visit (foldl Join dir names) m"
    unfolding walk_set [OF wfn] by blast
  with v(2) have "m = Denied" "HasPrefix (foldl Join dir names) ap"
    by (auto simp: nil_hit_entry_visit)
  moreover from nm(1) nat \<open>m = Denied\<close> have "kind_at (tree st) (segs dir @ names) = Some KDenied"
    by (simp add: kind_at_def node_at_append)
  ultimately show ?thesis by blast
qed

lemma segs_Nil [simp]: "segs [] = []"
  by (simp add: segs_def)

lemma Join_clean: "Join a b \<noteq> [] \<Longrightarrow> Clean (Join a b) = Join a b"
  by (auto simp: Join_def split: if_splits)

lemma Remove_file:
  assumes "segs (Join (localPath cm) q) = P" "P \<noteq> []" "lookup (tree s) P = Inr (File c t)"
  shows "Remove cm s q = (None, s\<lparr>tree := snd (remove_at (clock s) (tree s) P)\<rparr>)"
proof -
  let ?a = "Join (localPath cm) q"
  from assms(1,2) have ne: "?a \<noteq> []" by auto
  have nd: "\<not> endsWithDot ?a"
  proof
    assume "endsWithDot ?a"
    with Join_clean [OF ne] endsWithDot_Clean [of ?a] have "segs ?a = []" by simp
    with assms(1,2) show False by simp
  qed
  have ex: "Exist cm s q = (True, None)"
    using ne assms(1,3) by (simp add: Exist_def os_Stat_def)
  obtain e n' where r: "remove_at (clock s) (tree s) P = (e, n')"
    by (cases "remove_at (clock s) (tree s) P")
  with remove_file_kind [OF assms(3,2), of "clock s"] have "e = None" by simp
  with r have "os_RemoveAll s ?a = (None, s\<lparr>tree := snd (remove_at (clock s) (tree s) P)\<rparr>)"
    using ne nd assms(1) by (simp add: os_RemoveAll_def)
  with ex show ?thesis by (simp add: Remove_def)
qed

lemma Remove_gone:
  assumes "segs (Join (localPath cm) q) = P" "P \<noteq> []" "lookup (tree s) P = Inl ENOENT"
  shows "Remove cm s q = (None, s)"
proof -
  from assms(1,2) have ne: "Join (localPath cm) q \<noteq> []" by auto
  then have "Exist cm s q = (False, None)"
    using assms(1,3) by (simp add: Exist_def os_Stat_def os_IsNotExist_def)
  then show ?thesis by (simp add: Remove_def)
qed

lemma MultiRemove_loop_files:
  assumes "\<forall>w\<in>set ws. segs (Join (localPath cm) (TrimPrefix w (localPath cm))) \<noteq> [] \<and>
             kind_at T (segs (Join (localPath cm) (TrimPrefix w (localPath cm)))) = Some KFile"
    and "wf_node (tree s)"
    and "\<forall>Q. kind_at (tree s) Q = (if Q \<in> R then None else kind_at T Q)"
    and "\<forall>Q\<in>R. kind_at T Q = Some KFile"
  shows "\<exists>s'. MultiRemove_loop cm (map (\<lambda>w. TrimPrefix w (localPath cm)) ws) el s = (el, s') \<and>
              wf_node (tree s') \<and>
              (\<forall>Q. kind_at (tree s') Q =
                 (if Q \<in> R \<union> (\<lambda>w. segs (Join (localPath cm) (TrimPrefix w (localPath cm)))) ` set ws
                  then None else kind_at T Q))"
  using assms
proof (induction ws arbitrary: s R)
  case Nil
  then show ?case by simp
next
  case (Cons w ws)
  let ?pos = "\<lambda>w. segs (Join (localPath cm) (TrimPrefix w (localPath cm)))"
  let ?q = "TrimPrefix w (localPath cm)"
  let ?P = "?pos w"
  from Cons.prems(1) have P: "?P \<noteq> []" "kind_at T ?P = Some KFile" by auto
  from Cons.prems(1) have rest: "\<forall>w\<in>set ws. ?pos w \<noteq> [] \<and> kind_at T (?pos w) = Some KFile"
    by auto
  show ?case
  proof (cases "?P \<in> R")
    case True
    with Cons.prems(3) have gone: "kind_at (tree s) ?P = None" by simp
    from P(2) obtain c t where "lookup T ?P = Inr (File c t)"
      unfolding kind_at_File_iff by blast
    from parent_is_dir [OF this P(1)] have pd: "kind_at T (butlast ?P) = Some KDir" .
    have "butlast ?P \<notin> R"
    proof
      assume "butlast ?P \<in> R"
      with Cons.prems(4) have "kind_at T (butlast ?P) = Some KFile" by blast
      with pd show False by simp
    qed
    with Cons.prems(3) pd have "kind_at (tree s) (butlast ?P) = Some KDir" by simp
    from lookup_ENOENT [OF gone P(1) this] have "lookup (tree s) ?P = Inl ENOENT" .
    from Remove_gone [OF refl P(1) this] have rm: "Remove cm s ?q = (None, s)" .
    from Cons.IH [OF rest Cons.prems(2,3,4)] obtain s' where
      s': "MultiRemove_loop cm (map (\<lambda>w. TrimPrefix w (localPath cm)) ws) el s = (el, s')"
          "wf_node (tree s')"
          "\<forall>Q. kind_at (tree s') Q = (if Q \<in> R \<union> ?pos ` set ws then None else kind_at T Q)"
      by blast
    have "R \<union> ?pos ` set (w # ws) = R \<union> ?pos ` set ws" using True by auto
    with s' rm show ?thesis by simp
  next
    case False
    with Cons.prems(3) P(2) have "kind_at (tree s) ?P = Some KFile" by simp
    then obtain c t where l: "lookup (tree s) ?P = Inr (File c t)"
      unfolding kind_at_File_iff by blast
    let ?n' = "snd (remove_at (clock s) (tree s) ?P)"
    let ?s1 = "s\<lparr>tree := ?n'\<rparr>"
    from Remove_file [OF refl P(1) l] have rm: "Remove cm s ?q = (None, ?s1)" .
    have wf1: "wf_node (tree ?s1)"
      using remove_file_wf [OF Cons.prems(2) l P(1)] by simp
    have k1: "\<forall>Q. kind_at (tree ?s1) Q = (if Q \<in> insert ?P R then None else kind_at T Q)"
    proof
      fix Q
      have "kind_at ?n' Q = (if Q = ?P then None else kind_at (tree s) Q)"
        using remove_file_kind [OF l P(1)] by blast
      with Cons.prems(3) show "kind_at (tree ?s1) Q = (if Q \<in> insert ?P R then None else kind_at T Q)"
        by simp
    qed
    have r1: "\<forall>Q\<in>insert ?P R. kind_at T Q = Some KFile"
      using Cons.prems(4) P(2) by blast
    from Cons.IH [OF rest wf1 k1 r1] obtain s' where
      s': "MultiRemove_loop cm (map (\<lambda>w. TrimPrefix w (localPath cm)) ws) el ?s1 = (el, s')"
          "wf_node (tree s')"
          "\<forall>Q. kind_at (tree s') Q = (if Q \<in> insert ?P R \<union> ?pos ` set ws then None else kind_at T Q)"
      by blast
    have "R \<union> ?pos ` set (w # ws) = insert ?P R \<union> ?pos ` set ws" by auto
    with s' rm show ?thesis by simp
  qed
qed

lemma wf_fs_D: "wf_fs st \<Longrightarrow> wf_node (tree st) \<and> kind_of (tree st) = KDir"
  by (auto simp: wf_fs_def split: node.splits)

text \<open>
  The condition of resolving back is met whenever the root ends in a slash and the
  resolved prefix begins with the root: every matched path is a cleaned path that begins
  with the root, and joining what is left of it under the root gives it back.
\<close>

lemma Clean_double_slash: "Clean (a @ CHR ''/'' # CHR ''/'' # b) = Clean (a @ CHR ''/'' # b)"
proof -
  let ?p = "a @ CHR ''/'' # CHR ''/'' # b" and ?q = "a @ CHR ''/'' # b"
  have h: "hd ?p = hd ?q" by (cases a) auto
  have "split_slash ?p = split_slash a @ [] # split_slash b"
    using split_slash_append [of a "CHR ''/'' # b"] by simp
  then have "foldl (clean_elem r) [] (split_slash ?p) = foldl (clean_elem r) [] (split_slash ?q)" for r
    by (simp add: split_slash_append)
  then show ?thesis
    using h by (simp add: Clean_render)
qed

lemma HasPrefix_append: "HasPrefix w pre \<longleftrightarrow> (\<exists>rest. w = pre @ rest)"
  by (auto simp: HasPrefix_def) (metis append_take_drop_id)

lemma resolve_back_under_root:
  assumes "localPath cm = a @ ''/''" "HasPrefix w (localPath cm)" "Clean w = w"
  shows "Join (localPath cm) (TrimPrefix w (localPath cm)) = w" and "resolve_back cm w"
proof -
  from assms(2) obtain rest where w: "w = localPath cm @ rest"
    unfolding HasPrefix_append by blast
  then have t: "TrimPrefix w (localPath cm) = rest"
    by (simp add: TrimPrefix_def HasPrefix_def)
  have "Join (localPath cm) rest = Clean (a @ CHR ''/'' # CHR ''/'' # rest)"
    using assms(1) by (simp add: Join_def)
  also have "\<dots> = Clean (a @ CHR ''/'' # rest)" by (rule Clean_double_slash)
  also have "\<dots> = w" using w assms(1,3) by simp
  finally show "Join (localPath cm) (TrimPrefix w (localPath cm)) = w" using t by simp
  then show "resolve_back cm w" by (simp add: resolve_back_def)
qed

lemma matched_clean:
  assumes "wf_node (tree st)" "w \<in> set (matched cm st pre)"
  shows "Clean w = w \<and> HasPrefix w (Join (localPath cm) pre)"
proof -
  let ?dir = "Dir_of (Join (localPath cm) pre)"
  from assms(2) obtain names where
    n: "kind_at (tree st) (segs ?dir @ names) = Some KFile" "w = foldl Join ?dir names"
       "HasPrefix w (Join (localPath cm) pre)"
    unfolding matched_kind [OF assms(1)] by blast
  from kind_at_append_plain [OF assms(1) n(1)] have "\<forall>x\<in>set names. plain x" .
  from foldl_Join_segs [OF Clean_Dir_of this] n show ?thesis by simp
qed

lemma matched_under_root:
  assumes "wf_node (tree st)" "localPath cm = a @ ''/''"
    and "HasPrefix (Join (localPath cm) pre) (localPath cm)"
  shows "list_all (resolve_back cm) (matched cm st pre)"
proof -
  have "resolve_back cm w" if "w \<in> set (matched cm st pre)" for w
  proof -
    from matched_clean [OF assms(1) that] have c: "Clean w = w"
      and h: "HasPrefix w (Join (localPath cm) pre)" by auto
    from h assms(3) have "HasPrefix w (localPath cm)"
      unfolding HasPrefix_append by auto
    from resolve_back_under_root(2) [OF assms(2) this c] show ?thesis .
  qed
  then show ?thesis by (simp add: list_all_iff)
qed

text \<open>
  C9, as the code has it.  \<open>RemoveWithPrefix\<close> lists recursively and hands the listed
  paths to \<open>MultiRemove\<close>.  In a well-formed state, when every matched path of the walk
  resolves back and \<open>RemoveWithPrefix\<close> returns, the listing had returned the matched
  paths with the root trimmed and no error, the state handed back is the one
  \<open>MultiRemove\<close> of those paths produces, no error is returned, and the recursive
  listing of the same prefix in that state returns no path, no time and no error.
\<close>

theorem RemoveWithPrefix_then_list_empty:
  assumes wf: "wf_fs st"
    and rb: "list_all (resolve_back cm) (matched cm st pre)"
    and rw: "RemoveWithPrefix glob cm st pre = Returns (err, st')"
  shows "err = None \<and>
         ListWithPrefix glob cm st' pre True = Returns ([], [], None) \<and>
         (\<exists>modTimes. ListWithPrefix glob cm st pre True =
            Returns (map (\<lambda>w. TrimPrefix w (localPath cm)) (matched cm st pre), modTimes, None)) \<and>
         MultiRemove cm st (map (\<lambda>w. TrimPrefix w (localPath cm)) (matched cm st pre)) = (None, st')"
proof -
  let ?root = "localPath cm"
  let ?ap = "Join ?root pre"
  let ?dir = "Dir_of ?ap"
  let ?T = "tree st"
  let ?ms = "matched cm st pre"
  let ?ps = "map (\<lambda>w. TrimPrefix w ?root) ?ms"
  let ?pos = "\<lambda>w. segs (Join ?root (TrimPrefix w ?root))"
  from wf_fs_D [OF wf] have wfT: "wf_node ?T" and rootT: "kind_of ?T = KDir" by auto
  have np: "\<not> list_ex (nil_hit ?ap) (walk_visits st ?dir)"
    using rw by (auto simp: RemoveWithPrefix_def ListWithPrefix_recursive_eq split: if_splits)
  then have lw: "ListWithPrefix glob cm st pre True = Returns (modTimes_loop cm st ?ps ?ps [])"
    by (simp add: ListWithPrefix_recursive_eq)
  have pos: "?pos w = segs w \<and> kind_at ?T (?pos w) = Some KFile \<and> ?pos w \<noteq> []"
    if w: "w \<in> set ?ms" for w
  proof -
    from rb w have e: "?pos w = segs w" by (auto simp: list_all_iff resolve_back_def)
    from matched_position [OF wfT w] have k: "kind_at ?T (segs w) = Some KFile" .
    have "segs w \<noteq> []"
    proof
      assume "segs w = []"
      with k rootT show False by simp
    qed
    with e k show ?thesis by simp
  qed
  have ok: "list_all (stat_ok cm st) ?ps"
  proof -
    have "stat_ok cm st (TrimPrefix w ?root)" if w: "w \<in> set ?ms" for w
    proof -
      from pos [OF w] obtain c t where l: "lookup ?T (?pos w) = Inr (File c t)" and ne: "?pos w \<noteq> []"
        unfolding kind_at_File_iff by blast
      from ne have "Join ?root (TrimPrefix w ?root) \<noteq> []" by auto
      with l show ?thesis by (simp add: stat_ok_def getModTime_def os_Stat_def)
    qed
    then show ?thesis by (simp add: list_all_iff)
  qed
  then have lw': "ListWithPrefix glob cm st pre True =
      Returns (?ps, map (\<lambda>p. fst (getModTime cm st p)) ?ps, None)"
    using lw by (simp add: modTimes_loop_eq)
  with rw have mr: "MultiRemove cm st ?ps = (err, st')"
    by (simp add: RemoveWithPrefix_def)
  have a1: "\<forall>w\<in>set ?ms. ?pos w \<noteq> [] \<and> kind_at ?T (?pos w) = Some KFile"
    using pos by blast
  have a3: "\<forall>Q. kind_at (tree st) Q = (if Q \<in> {} then None else kind_at ?T Q)" by simp
  have a4: "\<forall>Q\<in>{}. kind_at ?T Q = Some KFile" by simp
  from MultiRemove_loop_files [OF a1 wfT a3 a4, of "[]"] obtain s' where
    s': "MultiRemove_loop cm ?ps [] st = ([], s')" "wf_node (tree s')"
        "\<forall>Q. kind_at (tree s') Q = (if Q \<in> {} \<union> ?pos ` set ?ms then None else kind_at ?T Q)"
    by blast
  from s'(1) mr have res: "err = None" "st' = s'" by (simp_all add: MultiRemove_def)
  let ?T' = "tree st'"
  have wfT': "wf_node ?T'" using s'(2) res by simp
  have kinds: "kind_at ?T' Q = (if Q \<in> ?pos ` set ?ms then None else kind_at ?T Q)" for Q
    using s'(3) res by simp
  have m': "matched cm st' pre = []"
  proof (rule ccontr)
    assume "matched cm st' pre \<noteq> []"
    then obtain w where "w \<in> set (matched cm st' pre)" by (cases "matched cm st' pre") auto
    then obtain names where n:
      "kind_at ?T' (segs ?dir @ names) = Some KFile" "w = foldl Join ?dir names" "HasPrefix w ?ap"
      unfolding matched_kind [OF wfT'] by blast
    from n(1) kinds [of "segs ?dir @ names"] have
      notin: "segs ?dir @ names \<notin> ?pos ` set ?ms" and kT: "kind_at ?T (segs ?dir @ names) = Some KFile"
      by (auto split: if_splits)
    from kT n(2,3) have wm: "w \<in> set ?ms"
      unfolding matched_kind [OF wfT] by blast
    from kind_at_append_plain [OF wfT kT] have "\<forall>x\<in>set names. plain x" .
    from foldl_Join_segs [OF Clean_Dir_of this] n(2) have "segs w = segs ?dir @ names" by simp
    with pos [OF wm] have "?pos w = segs ?dir @ names" by simp
    with wm notin show False by (metis imageI)
  qed
  have np': "\<not> list_ex (nil_hit ?ap) (walk_visits st' ?dir)"
  proof
    assume "list_ex (nil_hit ?ap) (walk_visits st' ?dir)"
    from nil_hit_elim [OF wfT' Dir_of_nonempty this]
    consider e where "lookup ?T' (segs ?dir) = Inl e" "HasPrefix ?dir ?ap"
      | names where "kind_at ?T' (segs ?dir @ names) = Some KDenied"
          "HasPrefix (foldl Join ?dir names) ?ap"
      by blast
    then show False
    proof cases
      case 1
      from Dir_of_prefix_is_root [OF 1(2)] have z: "segs ?dir = []" .
      from kinds [of "[]"] have "kind_of ?T' = kind_of ?T" by (auto split: if_splits)
      with rootT obtain es t where "?T' = Dir es t" by (cases ?T') auto
      with 1(1) z show False by simp
    next
      case 2
      from 2(1) kinds [of "segs ?dir @ names"] have "kind_at ?T (segs ?dir @ names) = Some KDenied"
        by (auto split: if_splits)
      from nil_hit_intro [OF wfT Dir_of_nonempty this 2(2)] np show False by simp
    qed
  qed
  have "ListWithPrefix glob cm st' pre True = Returns ([], [], None)"
    using np' m' by (simp add: ListWithPrefix_recursive_eq)
  with res lw' mr show ?thesis by simp
qed

theorem RemoveWithPrefix_then_list_empty_witness:
  "wf_fs st0 \<and>
   list_all (resolve_back cm0) (matched cm0 st0 ''a/b'') \<and>
   RemoveWithPrefix no_glob cm0 st0 ''a/b'' = Returns (None, st0_emptied) \<and>
   ListWithPrefix no_glob cm0 st0_emptied ''a/b'' True = Returns ([], [], None)"
proof -
  have w: "wf_fs st0"
    by code_simp
  have b: "list_all (resolve_back cm0) (matched cm0 st0 ''a/b'')"
    by code_simp
  have r: "RemoveWithPrefix no_glob cm0 st0 ''a/b'' = Returns (None, st0_emptied)"
    by code_simp
  from RemoveWithPrefix_then_list_empty [OF w b r] w b r show ?thesis
    by blast
qed

text \<open>
  Without that condition the claim fails.  With the root \<^verbatim>\<open>/data/\<close> and the empty
  prefix the walk starts at \<^verbatim>\<open>/\<close> and matches every path beginning with \<^verbatim>\<open>/data\<close>,
  the file \<^verbatim>\<open>/data2\<close> among them; the root is not a prefix of that path, so it is
  listed as \<^verbatim>\<open>/data2\<close>, which under the root names \<^verbatim>\<open>/data/data2\<close>.
  \<open>RemoveWithPrefix\<close> returns no error, and \<^verbatim>\<open>/data2\<close> is still listed afterwards.
\<close>

theorem RemoveWithPrefix_leaves_sibling:
  "wf_fs st_sibling \<and>
   ListWithPrefix no_glob cm0 st_sibling [] True =
     Returns ([''data2'', ''x'', ''/data2''], [1, 1, 1], None) \<and>
   RemoveWithPrefix no_glob cm0 st_sibling [] = Returns (None, st_sibling_left) \<and>
   ListWithPrefix no_glob cm0 st_sibling_left [] True =
     Returns ([''/data2''], [], Some (PathError ENOENT))"
  by code_simp

subsection \<open>The walk function and the nil \<^verbatim>\<open>FileInfo\<close>\<close>

lemma ListWithPrefix_missing_parent:
  assumes "wf_fs st"
    and "lookup (tree st) (segs (Dir_of (Join (localPath cm) pre))) = Inl e"
  shows "ListWithPrefix glob cm st pre True = Returns ([], [], None)"
proof -
  let ?ap = "Join (localPath cm) pre"
  let ?dir = "Dir_of ?ap"
  from wf_fs_D [OF assms(1)] obtain es t where T: "tree st = Dir es t"
    by (cases "tree st") auto
  have v: "walk_visits st ?dir = [(?dir, None, Some (PathError e))]"
    using assms(2) by (simp add: walk_visits_def)
  have "\<not> HasPrefix ?dir ?ap"
  proof
    assume "HasPrefix ?dir ?ap"
    from Dir_of_prefix_is_root [OF this] assms(2) T show False by simp
  qed
  then have "\<not> list_ex (nil_hit ?ap) (walk_visits st ?dir)"
    by (simp add: v nil_hit_def)
  moreover have "matched cm st pre = []"
    by (simp add: matched_def v matches_def)
  ultimately show ?thesis
    by (simp add: ListWithPrefix_recursive_eq)
qed

lemma ListWithPrefix_returns_without_Denied:
  assumes "wf_fs st" and "\<And>Q. kind_at (tree st) Q \<noteq> Some KDenied"
  shows "ListWithPrefix glob cm st pre True \<noteq> Panics"
proof -
  let ?ap = "Join (localPath cm) pre"
  let ?dir = "Dir_of ?ap"
  from wf_fs_D [OF assms(1)] have wfT: "wf_node (tree st)" by simp
  from wf_fs_D [OF assms(1)] obtain es t where T: "tree st = Dir es t"
    by (cases "tree st") auto
  have "\<not> list_ex (nil_hit ?ap) (walk_visits st ?dir)"
  proof
    assume "list_ex (nil_hit ?ap) (walk_visits st ?dir)"
    from nil_hit_elim [OF wfT Dir_of_nonempty this] assms(2)
    obtain e where e: "lookup (tree st) (segs ?dir) = Inl e" "HasPrefix ?dir ?ap"
      by blast
    from Dir_of_prefix_is_root [OF e(2)] e(1) T show False by simp
  qed
  then show ?thesis by (simp add: ListWithPrefix_recursive_eq)
qed

text \<open>
  C10.  In a well-formed state the recursive listing returns when the directory of the
  resolved prefix is missing (\<open>ListWithPrefix_missing_parent\<close>) and whenever the tree
  has no entry that cannot be examined (\<open>ListWithPrefix_returns_without_Denied\<close>).
  But when the walk meets such an entry it calls the function with a nil
  \<^verbatim>\<open>FileInfo\<close>, and if the path of that entry has the prefix, the function calls
  \<open>IsDir\<close> on it.  In \<open>st_denied\<close> the walk of \<^verbatim>\<open>/data/a\<close> reports \<^verbatim>\<open>/data/a/b/x.txt\<close>
  that way, and the recursive listing of the prefix \<^verbatim>\<open>a/b\<close> panics.
\<close>

theorem ListWithPrefix_panics_on_nil_FileInfo:
  "walk_visits st_denied ''/data/a'' =
     [(''/data/a'', Some \<lparr>IsDir = True, ModTime = 10, Size = 0\<rparr>, None),
      (''/data/a/b'', Some \<lparr>IsDir = True, ModTime = 10, Size = 0\<rparr>, None),
      (''/data/a/b/x.txt'', None, Some (PathError EACCES))] \<and>
   walkFn cm0 ''/data/a/b'' (''/data/a/b/x.txt'', None, Some (PathError EACCES)) [] = Panics \<and>
   ListWithPrefix no_glob cm0 st_denied ''a/b'' True = Panics"
  by code_simp


end
